theory Spec2Isabelle
  imports Complex_Main "HOL-Library.Sublist"
begin

section \<open>The event log of the arm dashboard (src/cli/logPanel.py)\<close>

text \<open>
  A shallow embedding of the event pipeline of \<^verbatim>\<open>logPanel.py\<close>: the log entries,
  the trimming of the message log, the log file parser, the day dividers, the
  deduplication with its time budget, the display strings and the redraw loop.
  Every function keeps the name it has in the source. What the source takes from
  the clock, from the configuration or from another module is a parameter of the
  function that reads it.
\<close>

subsection \<open>Python values\<close>

text \<open>
  A timestamp is a Python number. \<^verbatim>\<open>time.time()\<close>, \<^verbatim>\<open>time.mktime\<close> and an event's
  \<^verbatim>\<open>arrived_at\<close> are floats, \<^verbatim>\<open>int(record.created)\<close> and the timestamp of a day
  divider are ints. Floats are modelled as reals: rounding is not modelled.
\<close>

datatype pynum = PyInt int | PyFloat real

text \<open>\<^verbatim>\<open>int(x)\<close> of a float truncates towards zero.\<close>

definition py_int :: "real \<Rightarrow> int" where
  "py_int x = (if x < 0 then \<lceil>x\<rceil> else \<lfloor>x\<rfloor>)"

text \<open>The exceptions the modelled code can raise.\<close>

datatype error = IndexError | ValueError | KeyError | TypeError | AttributeError

subsection \<open>LogEntry\<close>

text \<open>The fields of a \<^verbatim>\<open>LogEntry\<close> object; \<open>displayMessage\<close> is \<^verbatim>\<open>_displayMessage\<close>.\<close>

record LogEntry =
  timestamp :: pynum
  type :: string
  msg :: string
  color :: string
  displayMessage :: "string option"

definition DAYBREAK_EVENT :: string where
  "DAYBREAK_EVENT = ''DAYBREAK''"

text \<open>\<^verbatim>\<open>LogEntry(timestamp, eventType, msg, color)\<close>.\<close>

definition newLogEntry :: "pynum \<Rightarrow> string \<Rightarrow> string \<Rightarrow> string \<Rightarrow> LogEntry" where
  "newLogEntry ts eventType m c =
     \<lparr>timestamp = ts, type = eventType, msg = m, color = c, displayMessage = None\<rparr>"

subsection \<open>daysSince\<close>

text \<open>
  \<^verbatim>\<open>int((timestamp - TIMEZONE_OFFSET) / 86400)\<close>, with the current time when the
  timestamp is None. \<^verbatim>\<open>TIMEZONE_OFFSET\<close> is an int fixed when the module is loaded
  (first parameter); \<open>now\<close> is what \<^verbatim>\<open>time.time()\<close> returns. In Python 2 the division
  of two ints rounds down, and the division of a float is then truncated by \<^verbatim>\<open>int\<close>.
\<close>

fun daysSince :: "int \<Rightarrow> real \<Rightarrow> pynum option \<Rightarrow> int" where
  "daysSince tz now None = py_int ((now - real_of_int tz) / 86400)"
| "daysSince tz now (Some (PyFloat t)) = py_int ((t - real_of_int tz) / 86400)"
| "daysSince tz now (Some (PyInt t)) = (t - tz) div 86400"

subsection \<open>Configuration\<close>

text \<open>
  \<^verbatim>\<open>conf_handler\<close>: the bounds forced on four configuration values; every other key
  falls off the end of the function, which returns None.
\<close>

definition conf_handler :: "string \<Rightarrow> int \<Rightarrow> int option" where
  "conf_handler key v =
     (if key = ''features.log.maxLinesPerEntry'' then Some (max 1 v)
      else if key = ''features.log.prepopulateReadLimit'' then Some (max 0 v)
      else if key = ''features.log.maxRefreshRate'' then Some (max 10 v)
      else if key = ''cache.logPanel.size'' then Some (max 1000 v)
      else None)"

subsection \<open>LogPanel._trimEvents\<close>

text \<open>\<^verbatim>\<open>del xs[k:]\<close> for an int \<open>k\<close>: a negative \<open>k\<close> counts from the end of the list.\<close>

definition del_from :: "int \<Rightarrow> 'a list \<Rightarrow> 'a list" where
  "del_from k xs =
     (if k < 0 then take (nat (int (length xs) + k)) xs else take (nat k) xs)"

text \<open>
  The loop \<^verbatim>\<open>for i in range(len(eventListing) - 1, -1, -1)\<close>: \<open>ttl_scan \<dots> xs n bp\<close> has
  the indices below \<open>n\<close> left to visit, from \<open>n - 1\<close> down, and \<open>bp\<close> is \<^verbatim>\<open>breakpoint\<close>.
  The loop stops at the first entry that is not older than the TTL.
\<close>

fun ttl_scan :: "int \<Rightarrow> real \<Rightarrow> int \<Rightarrow> int \<Rightarrow> LogEntry list \<Rightarrow> nat \<Rightarrow> nat option \<Rightarrow> nat option" where
  "ttl_scan tz now currentDay logTTL xs 0 bp = bp"
| "ttl_scan tz now currentDay logTTL xs (Suc i) bp =
     (let daysSinceEvent = currentDay - daysSince tz now (Some (timestamp (xs ! i)))
      in if daysSinceEvent > logTTL then ttl_scan tz now currentDay logTTL xs i (Some i)
         else bp)"

text \<open>
  \<open>cacheSize\<close> is \<^verbatim>\<open>CONFIG["cache.logPanel.size"]\<close> and \<open>logTTL\<close> is
  \<^verbatim>\<open>CONFIG["features.log.entryDuration"]\<close>. The source changes the list in place; the
  model returns the list it leaves.
\<close>

definition trimEvents :: "int \<Rightarrow> real \<Rightarrow> int \<Rightarrow> int \<Rightarrow> LogEntry list \<Rightarrow> LogEntry list" where
  "trimEvents tz now cacheSize logTTL eventListing =
     (let xs = (if int (length eventListing) > cacheSize then del_from cacheSize eventListing
                else eventListing)
      in if logTTL > 0 then
           (let currentDay = daysSince tz now None
            in case ttl_scan tz now currentDay logTTL xs (length xs) None of
                 None \<Rightarrow> xs
               | Some breakpoint \<Rightarrow> del_from (int breakpoint) xs)
         else xs)"

text \<open>
  An entry has outlived the TTL when its local calendar day lies more than \<open>logTTL\<close>
  days before the current calendar day: the age is counted in whole days, as the
  source counts it.
\<close>

definition expired :: "int \<Rightarrow> real \<Rightarrow> int \<Rightarrow> LogEntry \<Rightarrow> bool" where
  "expired tz now logTTL e =
     (daysSince tz now None - daysSince tz now (Some (timestamp e)) > logTTL)"

text \<open>Newest first: no entry is followed by an entry of a later day.\<close>

definition newest_first :: "int \<Rightarrow> real \<Rightarrow> LogEntry list \<Rightarrow> bool" where
  "newest_first tz now xs =
     sorted_wrt (\<lambda>a b. daysSince tz now (Some (timestamp b)) \<le> daysSince tz now (Some (timestamp a))) xs"

text \<open>The second half of \<open>trimEvents\<close> on its own: the crop at the TTL breakpoint.\<close>

definition ttl_crop :: "int \<Rightarrow> real \<Rightarrow> int \<Rightarrow> LogEntry list \<Rightarrow> LogEntry list" where
  "ttl_crop tz now ttl xs =
     (case ttl_scan tz now (daysSince tz now None) ttl xs (length xs) None of
        None \<Rightarrow> xs | Some b \<Rightarrow> del_from (int b) xs)"

text \<open>
  Two entries for the examples, with UTC as the time zone and the clock at second
  864005, in day 10: \<open>e_old\<close> is of day 0 and \<open>e_new\<close> of day 10.
\<close>

definition e_old :: LogEntry where
  "e_old = newLogEntry (PyInt 5) ''NOTICE'' ''old'' ''green''"

definition e_new :: LogEntry where
  "e_new = newLogEntry (PyInt 864000) ''NOTICE'' ''new'' ''green''"

subsection \<open>The store\<close>

text \<open>
  Entries and lists are Python objects: a list holds references to entries, and two
  names can stand for one list. \<open>objs\<close> maps the reference of an entry to its fields,
  \<open>heap\<close> maps the address of a list of entries to the references it holds, and
  \<open>pair_heap\<close> does so for the lists of \<^verbatim>\<open>(entry, duplicateCount)\<close> tuples. \<open>next_oid\<close>
  and \<open>next_addr\<close> are the first reference and the first address not yet in use. The
  module's globals are part of the state; None is \<open>None\<close>.

  \<^verbatim>\<open>LogEntry\<close> is an old-style class without \<^verbatim>\<open>__eq__\<close>, so \<^verbatim>\<open>==\<close> on two lists of entries
  holds when they have the same length and hold the same objects in the same order:
  it is the equality of the lists of references.
\<close>

record pystate =
  objs :: "nat \<Rightarrow> LogEntry"
  next_oid :: nat
  heap :: "nat \<Rightarrow> nat list"
  pair_heap :: "nat \<Rightarrow> (nat \<times> nat) list"
  next_addr :: nat
  CACHED_DAYBREAKS_ARGUMENTS :: "nat option \<times> int option"
  CACHED_DAYBREAKS_RESULT :: "nat option"
  CACHED_DUPLICATES_ARGUMENTS :: "nat option"
  CACHED_DUPLICATES_RESULT :: "nat option"
  COMMON_LOG_MESSAGES :: "(string \<Rightarrow> string list option) option"

text \<open>The state when the module has been loaded: nothing allocated, the caches unset.\<close>

definition init_state :: pystate where
  "init_state =
     \<lparr>objs = (\<lambda>_. newLogEntry (PyInt 0) [] [] []), next_oid = 0,
      heap = (\<lambda>_. []), pair_heap = (\<lambda>_. []), next_addr = 0,
      CACHED_DAYBREAKS_ARGUMENTS = (None, None), CACHED_DAYBREAKS_RESULT = None,
      CACHED_DUPLICATES_ARGUMENTS = None, CACHED_DUPLICATES_RESULT = None,
      COMMON_LOG_MESSAGES = None\<rparr>"

text \<open>A new list object with the given content: \<^verbatim>\<open>[]\<close>, \<^verbatim>\<open>list(xs)\<close>.\<close>

definition new_list :: "nat list \<Rightarrow> pystate \<Rightarrow> nat \<times> pystate" where
  "new_list xs s =
     (next_addr s, s\<lparr>heap := (heap s)(next_addr s := xs), next_addr := Suc (next_addr s)\<rparr>)"

definition new_pair_list :: "(nat \<times> nat) list \<Rightarrow> pystate \<Rightarrow> nat \<times> pystate" where
  "new_pair_list xs s =
     (next_addr s,
      s\<lparr>pair_heap := (pair_heap s)(next_addr s := xs), next_addr := Suc (next_addr s)\<rparr>)"

text \<open>A new entry object.\<close>

definition new_entry :: "LogEntry \<Rightarrow> pystate \<Rightarrow> nat \<times> pystate" where
  "new_entry e s =
     (next_oid s, s\<lparr>objs := (objs s)(next_oid s := e), next_oid := Suc (next_oid s)\<rparr>)"

text \<open>The caller changes the content of a list it holds (\<^verbatim>\<open>pop\<close>, \<^verbatim>\<open>insert\<close>, \<^verbatim>\<open>del\<close>).\<close>

definition mutate_list :: "nat \<Rightarrow> nat list \<Rightarrow> pystate \<Rightarrow> pystate" where
  "mutate_list a xs s = s\<lparr>heap := (heap s)(a := xs)\<rparr>"

definition mutate_pair_list :: "nat \<Rightarrow> (nat \<times> nat) list \<Rightarrow> pystate \<Rightarrow> pystate" where
  "mutate_pair_list a xs s = s\<lparr>pair_heap := (pair_heap s)(a := xs)\<rparr>"

subsection \<open>getDaybreaks\<close>

text \<open>
  The loop \<^verbatim>\<open>for entry in events\<close>: \<open>newListing\<close> is the list built so far, \<open>lastDay\<close>
  the day of the entry before, and the pair holds the entry objects and the next free
  reference, from which the \<^verbatim>\<open>DAYBREAK_EVENT\<close> marker is allocated.
\<close>

fun daybreaks_loop ::
  "int \<Rightarrow> real \<Rightarrow> nat list \<Rightarrow> nat list \<Rightarrow> int \<Rightarrow> (nat \<Rightarrow> LogEntry) \<times> nat
     \<Rightarrow> nat list \<times> (nat \<Rightarrow> LogEntry) \<times> nat" where
  "daybreaks_loop tz now [] newListing lastDay (os, n) = (newListing, os, n)"
| "daybreaks_loop tz now (entry # events) newListing lastDay (os, n) =
     (let eventDay = daysSince tz now (Some (timestamp (os entry)))
      in if eventDay \<noteq> lastDay then
           (let markerTimestamp = eventDay * 86400 + tz;
                marker = newLogEntry (PyInt markerTimestamp) DAYBREAK_EVENT [] ''white''
            in daybreaks_loop tz now events (newListing @ [n, entry]) eventDay
                 (os(n := marker), Suc n))
         else daybreaks_loop tz now events (newListing @ [entry]) eventDay (os, n))"

text \<open>
  \<open>events\<close> is the address of the list passed in; the result is the address of the
  list returned. A cache hit with \<^verbatim>\<open>CACHED_DAYBREAKS_RESULT\<close> still None would raise
  TypeError in \<^verbatim>\<open>list(None)\<close>.
\<close>

definition getDaybreaks :: "int \<Rightarrow> real \<Rightarrow> nat \<Rightarrow> bool \<Rightarrow> pystate \<Rightarrow> error + (nat \<times> pystate)" where
  "getDaybreaks tz now events ignoreTimeForCache s =
     (if heap s events = [] then Inr (new_list [] s)
      else
        (let (newListing, s1) = new_list [] s;
             currentDay = daysSince tz now None;
             lastDay = currentDay
         in if (case fst (CACHED_DAYBREAKS_ARGUMENTS s1) of
                  None \<Rightarrow> False
                | Some c \<Rightarrow> heap s1 c = heap s1 events)
               \<and> (ignoreTimeForCache \<or> snd (CACHED_DAYBREAKS_ARGUMENTS s1) = Some currentDay)
            then (case CACHED_DAYBREAKS_RESULT s1 of
                    None \<Rightarrow> Inl TypeError
                  | Some r \<Rightarrow> Inr (new_list (heap s1 r) s1))
            else
              (let (xs, os, n) =
                     daybreaks_loop tz now (heap s1 events) (heap s1 newListing) lastDay
                       (objs s1, next_oid s1);
                   s2 = s1\<lparr>objs := os, next_oid := n, heap := (heap s1)(newListing := xs)\<rparr>;
                   (c, s3) = new_list (heap s2 events) s2;
                   s4 = s3\<lparr>CACHED_DAYBREAKS_ARGUMENTS := (Some c, Some currentDay)\<rparr>;
                   (r, s5) = new_list (heap s4 newListing) s4;
                   s6 = s5\<lparr>CACHED_DAYBREAKS_RESULT := Some r\<rparr>
               in Inr (newListing, s6))))"

text \<open>
  \<open>out\<close> is \<open>es\<close> with entries of the category \<^verbatim>\<open>DAYBREAK_EVENT\<close> put in: every entry of
  \<open>es\<close> is there, in the order of \<open>es\<close>, and every other entry is a day divider.
\<close>

fun dividers_added :: "(nat \<Rightarrow> LogEntry) \<Rightarrow> nat list \<Rightarrow> nat list \<Rightarrow> bool" where
  "dividers_added os [] [] = True"
| "dividers_added os (e # es) [] = False"
| "dividers_added os [] (x # out) = (type (os x) = DAYBREAK_EVENT \<and> dividers_added os [] out)"
| "dividers_added os (e # es) (x # out) =
     ((x = e \<and> dividers_added os es out)
      \<or> (type (os x) = DAYBREAK_EVENT \<and> dividers_added os (e # es) out))"

text \<open>
  What holds of the state between two calls: every list in the caches and every entry
  in them is allocated, the two caches of \<open>getDaybreaks\<close> are set together, and the
  cached result is the cached argument with day dividers added.
\<close>

definition daybreaks_cache_ok :: "pystate \<Rightarrow> bool" where
  "daybreaks_cache_ok s =
     (case fst (CACHED_DAYBREAKS_ARGUMENTS s) of
        None \<Rightarrow> True
      | Some c \<Rightarrow>
          (case CACHED_DAYBREAKS_RESULT s of
             None \<Rightarrow> False
           | Some r \<Rightarrow> c < next_addr s \<and> r < next_addr s
                \<and> dividers_added (objs s) (heap s c) (heap s r)))"

text \<open>The content of the list a call returned, and that content without its day dividers.\<close>

definition returned :: "error + (nat \<times> pystate) \<Rightarrow> nat list option" where
  "returned res = (case res of Inl e \<Rightarrow> None | Inr (r, s) \<Rightarrow> Some (heap s r))"


text \<open>\<^verbatim>\<open>getDaybreaks(getDaybreaks(events))\<close>.\<close>

definition getDaybreaks_twice ::
  "int \<Rightarrow> real \<Rightarrow> nat \<Rightarrow> bool \<Rightarrow> pystate \<Rightarrow> error + (nat \<times> pystate)" where
  "getDaybreaks_twice tz now events ignoreTimeForCache s =
     (case getDaybreaks tz now events ignoreTimeForCache s of
        Inl e \<Rightarrow> Inl e
      | Inr (r, s1) \<Rightarrow> getDaybreaks tz now r ignoreTimeForCache s1)"

text \<open>
  A state for the examples: the entries \<open>e_old\<close> and \<open>e_new\<close> are the objects 0 and 1, and
  the list at address 0 is the message log \<^verbatim>\<open>[e_new, e_old]\<close>. In \<open>st_marked\<close> the log
  at address 0 holds a day divider of its own, the object 2, between the two.
\<close>

definition st_two :: pystate where
  "st_two = init_state\<lparr>objs := (objs init_state)(0 := e_old, 1 := e_new), next_oid := 2,
      heap := (heap init_state)(0 := [1, 0]), next_addr := 1\<rparr>"

definition st_marked :: pystate where
  "st_marked = init_state\<lparr>objs := (objs init_state)(0 := e_old, 1 := e_new,
        2 := newLogEntry (PyInt 0) DAYBREAK_EVENT [] ''white''), next_oid := 3,
      heap := (heap init_state)(0 := [1, 2, 0]), next_addr := 1\<rparr>"

text \<open>The test of \<open>getDaybreaks\<close> for a cache hit, on the state before the call.\<close>

definition daybreaks_hit :: "int \<Rightarrow> real \<Rightarrow> nat \<Rightarrow> bool \<Rightarrow> pystate \<Rightarrow> bool" where
  "daybreaks_hit tz now events ignoreTimeForCache s =
     ((case fst (CACHED_DAYBREAKS_ARGUMENTS s) of
         None \<Rightarrow> False
       | Some c \<Rightarrow> heap s c = heap s events)
      \<and> (ignoreTimeForCache
           \<or> snd (CACHED_DAYBREAKS_ARGUMENTS s) = Some (daysSince tz now None)))"

subsection \<open>Strings\<close>

text \<open>
  \<^verbatim>\<open>s.upper()\<close> on the ASCII letters, \<^verbatim>\<open>s.startswith(p)\<close> as \<open>prefix p s\<close> and \<^verbatim>\<open>p in s\<close> as
  \<open>sublist p s\<close>.
\<close>

definition upper_char :: "char \<Rightarrow> char" where
  "upper_char c =
     (case map_of (zip ''abcdefghijklmnopqrstuvwxyz'' ''ABCDEFGHIJKLMNOPQRSTUVWXYZ'') c of
        None \<Rightarrow> c
      | Some C \<Rightarrow> C)"

definition upper :: "string \<Rightarrow> string" where
  "upper s = map upper_char s"

subsection \<open>loadLogMessages\<close>

text \<open>
  \<open>armConf\<close> is the configuration \<^verbatim>\<open>conf.get_config("arm")\<close>: its keys in the order
  \<^verbatim>\<open>keys()\<close> lists them, each with the list of its values. The result is the new value
  of \<^verbatim>\<open>COMMON_LOG_MESSAGES\<close>.
\<close>

definition loadLogMessages :: "(string \<times> string list) list \<Rightarrow> (string \<Rightarrow> string list option)" where
  "loadLogMessages armConf =
     fold (\<lambda>confKey common.
             if prefix ''msg.'' confKey then
               (let eventType = upper (drop 4 confKey);
                    messages = (case map_of armConf confKey of None \<Rightarrow> [] | Some v \<Rightarrow> v)
                in common(eventType \<mapsto> messages))
             else common)
          (map fst armConf) Map.empty"

subsection \<open>isDuplicate\<close>

text \<open>
  The loop over \<^verbatim>\<open>COMMON_LOG_MESSAGES[event.type]\<close>: the value of \<^verbatim>\<open>isDuplicate\<close> when the
  loop ends. \<^verbatim>\<open>commonMsg[0]\<close> raises IndexError on an empty pattern.
\<close>

fun common_match :: "string list \<Rightarrow> string \<Rightarrow> string \<Rightarrow> error + bool" where
  "common_match [] eventMsg forwardMsg = Inr False"
| "common_match (commonMsg # rest) eventMsg forwardMsg =
     (case commonMsg of
        [] \<Rightarrow> Inl IndexError
      | c # pat \<Rightarrow>
          (let isDuplicate =
                 (if c = CHR ''*'' then sublist pat eventMsg \<and> sublist pat forwardMsg
                  else prefix commonMsg eventMsg \<and> prefix commonMsg forwardMsg)
           in if isDuplicate then Inr True else common_match rest eventMsg forwardMsg))"

text \<open>
  Whether \<open>event\<close> and \<open>forwardEntry\<close>, of one category, are duplicates. \<open>common\<close> is the
  global \<^verbatim>\<open>COMMON_LOG_MESSAGES\<close>; \<^verbatim>\<open>event.type in None\<close> raises TypeError.
\<close>

definition entries_match ::
  "(string \<Rightarrow> string list option) option \<Rightarrow> LogEntry \<Rightarrow> LogEntry \<Rightarrow> error + bool" where
  "entries_match common event forwardEntry =
     (if msg event = msg forwardEntry then Inr True
      else (case common of
              None \<Rightarrow> Inl TypeError
            | Some cm \<Rightarrow>
                (case cm (type event) of
                   None \<Rightarrow> Inr False
                 | Some msgs \<Rightarrow> common_match msgs (msg event) (msg forwardEntry))))"

text \<open>What \<open>isDuplicate\<close> returns: a boolean, or the indices when \<^verbatim>\<open>getDuplicates\<close> is set.\<close>

datatype dup_result = Found bool | Indices "nat list"

text \<open>
  The loop \<^verbatim>\<open>for i in range(len(eventSet))\<close>, at index \<open>i\<close> with the entries from \<open>i\<close> on
  still to visit; \<open>duplicateIndices\<close> is the list built so far. The loop ends at the
  first entry of the category \<^verbatim>\<open>DAYBREAK_EVENT\<close>.
\<close>

fun dup_scan ::
  "(string \<Rightarrow> string list option) option \<Rightarrow> LogEntry \<Rightarrow> LogEntry list \<Rightarrow> nat \<Rightarrow> bool \<Rightarrow> nat list
     \<Rightarrow> error + dup_result" where
  "dup_scan common event [] i getDuplicates duplicateIndices =
     Inr (if getDuplicates then Indices duplicateIndices else Found False)"
| "dup_scan common event (forwardEntry # rest) i getDuplicates duplicateIndices =
     (if type forwardEntry = DAYBREAK_EVENT then
        Inr (if getDuplicates then Indices duplicateIndices else Found False)
      else if type event = type forwardEntry then
        (case entries_match common event forwardEntry of
           Inl e \<Rightarrow> Inl e
         | Inr isDuplicate \<Rightarrow>
             if isDuplicate then
               (if getDuplicates then
                  dup_scan common event rest (Suc i) getDuplicates (duplicateIndices @ [i])
                else Inr (Found True))
             else dup_scan common event rest (Suc i) getDuplicates duplicateIndices)
      else dup_scan common event rest (Suc i) getDuplicates duplicateIndices)"

definition isDuplicate ::
  "(string \<Rightarrow> string list option) option \<Rightarrow> LogEntry \<Rightarrow> LogEntry list \<Rightarrow> bool
     \<Rightarrow> error + dup_result" where
  "isDuplicate common event eventSet getDuplicates =
     dup_scan common event eventSet 0 getDuplicates []"

subsection \<open>getDuplicates\<close>

text \<open>
  \<^verbatim>\<open>del xs[i]\<close>, and \<^verbatim>\<open>for i in duplicateIndices: del eventsRemaining[i]\<close>. The indices come
  from \<open>isDuplicate\<close> on the same list and are below its length (\<open>dup_scan_indices\<close>
  below), so the IndexError of an index out of range is not modelled.
\<close>

definition del_at :: "nat \<Rightarrow> 'a list \<Rightarrow> 'a list" where
  "del_at i xs = take i xs @ drop (Suc i) xs"

definition del_all :: "nat list \<Rightarrow> 'a list \<Rightarrow> 'a list" where
  "del_all duplicateIndices xs = fold del_at duplicateIndices xs"

lemma length_del_all: "length (del_all is xs) \<le> length xs"
  unfolding del_all_def
proof (induction "is" arbitrary: xs)
  case Nil
  show ?case by simp
next
  case (Cons i "is")
  have "length (fold del_at is (del_at i xs)) \<le> length (del_at i xs)" by (rule Cons.IH)
  also have "\<dots> \<le> length xs" by (simp add: del_at_def)
  finally show ?case by simp
qed

text \<open>
  The loop \<^verbatim>\<open>while eventsRemaining\<close>. \<open>os\<close> gives the fields of an entry; \<open>clock k\<close> is
  what the \<open>k\<close>-th call of \<^verbatim>\<open>time.time()\<close> in this run of \<open>getDuplicates\<close> returns, the call
  for \<open>startTime\<close> being the call 0. The result None is the timeout. With the flag set
  \<open>isDuplicate\<close> never returns a boolean; \<^verbatim>\<open>reverse\<close> of one would raise AttributeError.
\<close>

function dedup_loop ::
  "(string \<Rightarrow> string list option) option \<Rightarrow> (nat \<Rightarrow> LogEntry) \<Rightarrow> (nat \<Rightarrow> real) \<Rightarrow> real \<Rightarrow> nat
     \<Rightarrow> nat list \<Rightarrow> (nat \<times> nat) list \<Rightarrow> error + (nat \<times> nat) list option" where
  "dedup_loop common os clock startTime k [] returnEvents = Inr (Some returnEvents)"
| "dedup_loop common os clock startTime k (entry # eventsRemaining) returnEvents =
     (case isDuplicate common (os entry) (map os eventsRemaining) True of
        Inl e \<Rightarrow> Inl e
      | Inr (Found b) \<Rightarrow> Inl AttributeError
      | Inr (Indices duplicateIndices) \<Rightarrow>
          if clock k - startTime > 100 / 1000 then Inr None
          else dedup_loop common os clock startTime (Suc k)
                 (del_all (rev duplicateIndices) eventsRemaining)
                 (returnEvents @ [(entry, length duplicateIndices)]))"
  by pat_completeness auto
termination
  by (relation "measure (\<lambda>(common, os, clock, startTime, k, eventsRemaining, returnEvents).
        length eventsRemaining)")
    (auto simp: length_del_all le_imp_less_Suc)

text \<open>
  The same loop, keeping for each entry the list of the entries dropped as its
  duplicates in place of their number. It is not in the source: it names what the
  source counts.
\<close>

function dedup_groups ::
  "(string \<Rightarrow> string list option) option \<Rightarrow> (nat \<Rightarrow> LogEntry) \<Rightarrow> (nat \<Rightarrow> real) \<Rightarrow> real \<Rightarrow> nat
     \<Rightarrow> nat list \<Rightarrow> (nat \<times> nat list) list \<Rightarrow> error + (nat \<times> nat list) list option" where
  "dedup_groups common os clock startTime k [] groups = Inr (Some groups)"
| "dedup_groups common os clock startTime k (entry # eventsRemaining) groups =
     (case isDuplicate common (os entry) (map os eventsRemaining) True of
        Inl e \<Rightarrow> Inl e
      | Inr (Found b) \<Rightarrow> Inl AttributeError
      | Inr (Indices duplicateIndices) \<Rightarrow>
          if clock k - startTime > 100 / 1000 then Inr None
          else dedup_groups common os clock startTime (Suc k)
                 (del_all (rev duplicateIndices) eventsRemaining)
                 (groups @ [(entry, map (\<lambda>i. eventsRemaining ! i) duplicateIndices)]))"
  by pat_completeness auto
termination
  by (relation "measure (\<lambda>(common, os, clock, startTime, k, eventsRemaining, groups).
        length eventsRemaining)")
    (auto simp: length_del_all le_imp_less_Suc)

text \<open>
  \<open>events\<close> is the address of the list passed in. The result is None for the timeout,
  or the address of the list of \<^verbatim>\<open>(entry, duplicateCount)\<close> tuples returned. The lists
  \<^verbatim>\<open>eventsRemaining\<close> and \<^verbatim>\<open>duplicateIndices\<close> never leave the function and get no
  address. A cache hit with \<^verbatim>\<open>CACHED_DUPLICATES_RESULT\<close> still None would raise TypeError.
\<close>

definition getDuplicates ::
  "(string \<times> string list) list \<Rightarrow> (nat \<Rightarrow> real) \<Rightarrow> nat \<Rightarrow> pystate
     \<Rightarrow> error + (nat option \<times> pystate)" where
  "getDuplicates armConf clock events s =
     (if (case CACHED_DUPLICATES_ARGUMENTS s of
            None \<Rightarrow> False
          | Some c \<Rightarrow> heap s c = heap s events)
      then (case CACHED_DUPLICATES_RESULT s of
              None \<Rightarrow> Inl TypeError
            | Some r \<Rightarrow> (let (a, s') = new_pair_list (pair_heap s r) s in Inr (Some a, s')))
      else
        (let s1 = (if COMMON_LOG_MESSAGES s = None
                   then s\<lparr>COMMON_LOG_MESSAGES := Some (loadLogMessages armConf)\<rparr> else s);
             startTime = clock 0;
             eventsRemaining = heap s1 events
         in case dedup_loop (COMMON_LOG_MESSAGES s1) (objs s1) clock startTime 1 eventsRemaining [] of
              Inl e \<Rightarrow> Inl e
            | Inr None \<Rightarrow> Inr (None, s1)
            | Inr (Some returnEvents) \<Rightarrow>
                (let (r, s2) = new_pair_list returnEvents s1;
                     (c, s3) = new_list (heap s2 events) s2;
                     s4 = s3\<lparr>CACHED_DUPLICATES_ARGUMENTS := Some c\<rparr>;
                     (c', s5) = new_pair_list (pair_heap s4 r) s4;
                     s6 = s5\<lparr>CACHED_DUPLICATES_RESULT := Some c'\<rparr>
                 in Inr (Some r, s6))))"

text \<open>
  A group \<open>(p, ds)\<close> of \<open>dedup_groups\<close> is sound when every entry \<open>q\<close> of \<open>ds\<close> stands after
  \<open>p\<close>, is of the category of \<open>p\<close>, and no entry after \<open>p\<close> up to \<open>q\<close> is a day divider.
\<close>

definition group_ok :: "(nat \<Rightarrow> LogEntry) \<Rightarrow> nat \<Rightarrow> nat \<times> nat list \<Rightarrow> bool" where
  "group_ok os n g =
     (\<forall>q \<in> set (snd g). fst g < q \<and> q < n \<and> type (os q) = type (os (fst g))
        \<and> (\<forall>j. fst g < j \<and> j \<le> q \<longrightarrow> type (os j) \<noteq> DAYBREAK_EVENT))"

text \<open>The tuple \<^verbatim>\<open>(entry, duplicateCount)\<close> of a group of positions in the list \<open>f\<close>.\<close>

definition count_pair :: "(nat \<Rightarrow> nat) \<Rightarrow> nat \<times> nat list \<Rightarrow> nat \<times> nat" where
  "count_pair f g = (f (fst g), length (snd g))"

text \<open>No configured pattern is the empty string.\<close>

definition patterns_ok :: "(string \<Rightarrow> string list option) \<Rightarrow> bool" where
  "patterns_ok cm = (\<forall>t msgs. cm t = Some msgs \<longrightarrow> [] \<notin> set msgs)"

text \<open>The test of \<open>getDuplicates\<close> for a cache hit, and the state with the patterns loaded.\<close>

definition dup_hit :: "nat \<Rightarrow> pystate \<Rightarrow> bool" where
  "dup_hit events s =
     (case CACHED_DUPLICATES_ARGUMENTS s of None \<Rightarrow> False | Some c \<Rightarrow> heap s c = heap s events)"

definition load_common :: "(string \<times> string list) list \<Rightarrow> pystate \<Rightarrow> pystate" where
  "load_common armConf s =
     (if COMMON_LOG_MESSAGES s = None
      then s\<lparr>COMMON_LOG_MESSAGES := Some (loadLogMessages armConf)\<rparr> else s)"

definition common_of :: "(string \<times> string list) list \<Rightarrow> pystate \<Rightarrow> (string \<Rightarrow> string list option)" where
  "common_of armConf s =
     (case COMMON_LOG_MESSAGES s of None \<Rightarrow> loadLogMessages armConf | Some cm \<Rightarrow> cm)"

text \<open>
  What holds of the caches of \<open>getDuplicates\<close> between two calls: they are set together,
  to allocated lists, and in the cached result every entry of the cached argument is
  either the entry of a tuple or counted once as a duplicate.
\<close>

definition dup_cache_ok :: "pystate \<Rightarrow> bool" where
  "dup_cache_ok s =
     (case CACHED_DUPLICATES_ARGUMENTS s of
        None \<Rightarrow> True
      | Some c \<Rightarrow>
          (case CACHED_DUPLICATES_RESULT s of
             None \<Rightarrow> False
           | Some r \<Rightarrow> c < next_addr s \<and> r < next_addr s
                \<and> length (pair_heap s r) + sum_list (map snd (pair_heap s r)) = length (heap s c)
                \<and> subseq (map fst (pair_heap s r)) (heap s c)))"

text \<open>The tuples a call returned, and the number of day dividers in a list.\<close>

definition returned_pairs :: "error + (nat option \<times> pystate) \<Rightarrow> (nat \<times> nat) list option" where
  "returned_pairs res =
     (case res of
        Inl e \<Rightarrow> None
      | Inr (None, s) \<Rightarrow> None
      | Inr (Some r, s) \<Rightarrow> Some (pair_heap s r))"


text \<open>
  For the examples: a clock that stands still and one that moves a second with every
  reading, and a log of five entries, \<^verbatim>\<open>[a, w, a', divider, a'']\<close>, where \<open>a\<close>, \<open>a'\<close> and
  \<open>a''\<close> are the same notice and \<open>w\<close> is a warning with the same message.
\<close>

definition clock_still :: "nat \<Rightarrow> real" where
  "clock_still k = 0"

definition clock_slow :: "nat \<Rightarrow> real" where
  "clock_slow k = real k"

definition st_dups :: pystate where
  "st_dups = init_state\<lparr>objs := (objs init_state)
        (0 := newLogEntry (PyInt 864000) ''NOTICE'' ''heartbeat'' ''green'',
         1 := newLogEntry (PyInt 864000) ''WARN'' ''heartbeat'' ''yellow'',
         2 := newLogEntry (PyInt 864000) ''NOTICE'' ''heartbeat'' ''green'',
         3 := newLogEntry (PyInt 777600) DAYBREAK_EVENT [] ''white'',
         4 := newLogEntry (PyInt 777700) ''NOTICE'' ''heartbeat'' ''green''),
      next_oid := 5, heap := (heap init_state)(0 := [0, 1, 2, 3, 4]), next_addr := 1\<rparr>"

text \<open>
  A caller that changes the list it got back and calls again with the same input, as
  \<^verbatim>\<open>draw\<close> does when it pops the tuples off the deduplicated list: \<open>ys\<close> is what the caller
  leaves in the returned list.
\<close>

definition daybreaks_then_again ::
  "int \<Rightarrow> real \<Rightarrow> nat \<Rightarrow> bool \<Rightarrow> nat list \<Rightarrow> pystate \<Rightarrow> error + (nat \<times> pystate)" where
  "daybreaks_then_again tz now events ignoreTimeForCache ys s =
     (case getDaybreaks tz now events ignoreTimeForCache s of
        Inl e \<Rightarrow> Inl e
      | Inr (r, s1) \<Rightarrow> getDaybreaks tz now events ignoreTimeForCache (mutate_list r ys s1))"

definition duplicates_then_again ::
  "(string \<times> string list) list \<Rightarrow> (nat \<Rightarrow> real) \<Rightarrow> nat \<Rightarrow> (nat \<times> nat) list \<Rightarrow> pystate
     \<Rightarrow> error + (nat option \<times> pystate)" where
  "duplicates_then_again armConf clock events ys s =
     (case getDuplicates armConf clock events s of
        Inl e \<Rightarrow> Inl e
      | Inr (None, s1) \<Rightarrow> Inr (None, s1)
      | Inr (Some r, s1) \<Rightarrow> getDuplicates armConf clock events (mutate_pair_list r ys s1))"

subsection \<open>LogEntry.getDisplayMessage\<close>

text \<open>
  \<^verbatim>\<open>time.struct_time\<close>: the nine fields, in the order of the tuple. \<^verbatim>\<open>time.localtime\<close> is
  a parameter of the functions that call it.
\<close>

record struct_time =
  tm_year :: int
  tm_mon :: int
  tm_mday :: int
  tm_hour :: int
  tm_min :: int
  tm_sec :: int
  tm_wday :: int
  tm_yday :: int
  tm_isdst :: int

text \<open>
  The conversions of the \<^verbatim>\<open>%\<close> operator: \<^verbatim>\<open>%i\<close> prints an int in decimal, with a minus
  sign when it is negative, and \<^verbatim>\<open>%02i\<close> pads what \<^verbatim>\<open>%i\<close> prints with a zero to the
  width 2.
\<close>

definition digit_char :: "nat \<Rightarrow> char" where
  "digit_char d = ''0123456789'' ! d"

fun digits :: "nat \<Rightarrow> string" where
  "digits n = (if n < 10 then [digit_char n] else digits (n div 10) @ [digit_char (n mod 10)])"

declare digits.simps [simp del]

definition fmt_i :: "int \<Rightarrow> string" where
  "fmt_i n = (if n < 0 then CHR ''-'' # digits (nat (- n)) else digits (nat n))"

definition fmt_02i :: "int \<Rightarrow> string" where
  "fmt_02i n = (let s = fmt_i n in if length s < 2 then CHR ''0'' # s else s)"

text \<open>
  The result is the string returned and the entry as the call leaves it. An entry
  whose \<^verbatim>\<open>_displayMessage\<close> is None or the empty string has nothing cached.
\<close>

definition getDisplayMessage ::
  "(pynum \<Rightarrow> struct_time) \<Rightarrow> LogEntry \<Rightarrow> bool \<Rightarrow> string \<times> LogEntry" where
  "getDisplayMessage localtime self includeDate =
     (if includeDate then
        (let entryTime = localtime (timestamp self);
             timeLabel = fmt_i (tm_mon entryTime) @ ''/'' @ fmt_i (tm_mday entryTime) @ ''/''
               @ fmt_i (tm_year entryTime) @ '' '' @ fmt_02i (tm_hour entryTime) @ '':''
               @ fmt_02i (tm_min entryTime) @ '':'' @ fmt_02i (tm_sec entryTime)
         in (timeLabel @ '' ['' @ type self @ ''] '' @ msg self, self))
      else
        (let self' =
               (if displayMessage self = None \<or> displayMessage self = Some [] then
                  (let entryTime = localtime (timestamp self)
                   in self\<lparr>displayMessage := Some
                        (fmt_02i (tm_hour entryTime) @ '':'' @ fmt_02i (tm_min entryTime) @ '':''
                         @ fmt_02i (tm_sec entryTime) @ '' ['' @ type self @ ''] '' @ msg self)\<rparr>)
                else self)
         in (case displayMessage self' of Some d \<Rightarrow> d | None \<Rightarrow> [], self')))"

text \<open>
  The patterns of the claim: a number of two digits (\<^verbatim>\<open>HH\<close>, \<^verbatim>\<open>MM\<close>, \<^verbatim>\<open>SS\<close>, \<^verbatim>\<open>DD\<close>) and a year of
  four (\<^verbatim>\<open>YYYY\<close>), and the dated line \<^verbatim>\<open>MM/DD/YYYY HH:MM:SS [category] message\<close> as the
  claim words it.
\<close>

definition two_digits :: "int \<Rightarrow> string" where
  "two_digits n = [digit_char (nat n div 10), digit_char (nat n mod 10)]"

definition four_digits :: "int \<Rightarrow> string" where
  "four_digits n = [digit_char (nat n div 1000), digit_char (nat n div 100 mod 10),
     digit_char (nat n div 10 mod 10), digit_char (nat n mod 10)]"

definition dated_line_as_claimed :: "struct_time \<Rightarrow> LogEntry \<Rightarrow> string" where
  "dated_line_as_claimed t e =
     two_digits (tm_mon t) @ ''/'' @ two_digits (tm_mday t) @ ''/'' @ four_digits (tm_year t)
       @ '' '' @ two_digits (tm_hour t) @ '':'' @ two_digits (tm_min t) @ '':''
       @ two_digits (tm_sec t) @ '' ['' @ type e @ ''] '' @ msg e"

text \<open>
  For the examples: a clock that shows 5 July 2012, 18:29:48, a Thursday, for every
  timestamp, and the notice of the log line that the source quotes.
\<close>

definition july_5 :: struct_time where
  "july_5 = \<lparr>tm_year = 2012, tm_mon = 7, tm_mday = 5, tm_hour = 18, tm_min = 29, tm_sec = 48,
     tm_wday = 3, tm_yday = 187, tm_isdst = 0\<rparr>"

definition e_geoip :: LogEntry where
  "e_geoip = newLogEntry (PyFloat 1341512988) ''NOTICE'' ''Parsing GEOIP file.'' ''green''"

definition localtime_july_5 :: "pynum \<Rightarrow> struct_time" where
  "localtime_july_5 t = july_5"

section \<open>Properties\<close>

subsection \<open>Trimming the message log\<close>

lemma length_del_from: "length (del_from k xs) \<le> length xs"
  by (auto simp: del_from_def)

lemma ttl_scan_Some:
  "\<exists>b. ttl_scan tz now cur ttl xs n (Some n) = Some b \<and> b \<le> n
       \<and> (\<forall>i. b \<le> i \<and> i < n \<longrightarrow> ttl < cur - daysSince tz now (Some (timestamp (xs ! i))))
       \<and> (b = 0 \<or> \<not> ttl < cur - daysSince tz now (Some (timestamp (xs ! (b - 1)))))"
proof (induction n)
  case 0
  show ?case by simp
next
  case (Suc n)
  show ?case
  proof (cases "ttl < cur - daysSince tz now (Some (timestamp (xs ! n)))")
    case False
    then show ?thesis by simp
  next
    case True
    from Suc.IH obtain b where b: "ttl_scan tz now cur ttl xs n (Some n) = Some b" "b \<le> n"
        "\<forall>i. b \<le> i \<and> i < n \<longrightarrow> ttl < cur - daysSince tz now (Some (timestamp (xs ! i)))"
        "b = 0 \<or> \<not> ttl < cur - daysSince tz now (Some (timestamp (xs ! (b - 1))))" by blast
    have 1: "ttl_scan tz now cur ttl xs (Suc n) (Some (Suc n)) = Some b"
      using True b(1) by simp
    have 2: "\<forall>i. b \<le> i \<and> i < Suc n \<longrightarrow> ttl < cur - daysSince tz now (Some (timestamp (xs ! i)))"
      using b(3) True less_Suc_eq by blast
    from 1 2 b(2) b(4) show ?thesis by (intro exI [of _ b]) simp
  qed
qed

lemma ttl_crop_take:
  "\<exists>b \<le> length xs. ttl_crop tz now ttl xs = take b xs
      \<and> (\<forall>i. b \<le> i \<and> i < length xs \<longrightarrow> expired tz now ttl (xs ! i))
      \<and> (b = 0 \<or> \<not> expired tz now ttl (xs ! (b - 1)))"
proof (cases "length xs")
  case 0
  then show ?thesis by (simp add: ttl_crop_def)
next
  case (Suc n)
  show ?thesis
  proof (cases "expired tz now ttl (xs ! n)")
    case False
    with Suc have "ttl_crop tz now ttl xs = take (length xs) xs"
      by (simp add: ttl_crop_def expired_def)
    with False Suc show ?thesis by (intro exI [of _ "length xs"]) auto
  next
    case True
    from ttl_scan_Some [of tz now "daysSince tz now None" ttl xs n] obtain b where
      b: "ttl_scan tz now (daysSince tz now None) ttl xs n (Some n) = Some b" "b \<le> n"
         "\<forall>i. b \<le> i \<and> i < n \<longrightarrow> expired tz now ttl (xs ! i)"
         "b = 0 \<or> \<not> expired tz now ttl (xs ! (b - 1))" unfolding expired_def by blast
    from True Suc b(1) have t: "ttl_crop tz now ttl xs = take b xs"
      by (simp add: ttl_crop_def del_from_def expired_def)
    have "\<forall>i. b \<le> i \<and> i < length xs \<longrightarrow> expired tz now ttl (xs ! i)"
      using b(3) True Suc less_Suc_eq by auto
    with t b(2,4) Suc show ?thesis by (intro exI [of _ b]) simp
  qed
qed

lemma trimEvents_eq:
  "trimEvents tz now cacheSize logTTL xs =
     (let ys = (if int (length xs) > cacheSize then del_from cacheSize xs else xs)
      in if logTTL > 0 then ttl_crop tz now logTTL ys else ys)"
  unfolding trimEvents_def ttl_crop_def Let_def by (rule refl)

lemma capacity_crop:
  assumes "0 \<le> cacheSize"
  shows "(if int (length xs) > cacheSize then del_from cacheSize xs else xs) = take (nat cacheSize) xs"
  using assms by (auto simp: del_from_def)

lemma trimEvents_no_ttl:
  assumes "0 \<le> cacheSize" "logTTL \<le> 0"
  shows "trimEvents tz now cacheSize logTTL xs = take (nat cacheSize) xs"
  unfolding trimEvents_eq Let_def capacity_crop [OF assms(1)] using assms(2) by simp

lemma trimEvents_ttl:
  assumes "0 \<le> cacheSize" "0 < logTTL"
  shows "\<exists>b \<le> length (take (nat cacheSize) xs).
       trimEvents tz now cacheSize logTTL xs = take b (take (nat cacheSize) xs)
     \<and> (\<forall>i. b \<le> i \<and> i < length (take (nat cacheSize) xs) \<longrightarrow>
            expired tz now logTTL (take (nat cacheSize) xs ! i))
     \<and> (b = 0 \<or> \<not> expired tz now logTTL (take (nat cacheSize) xs ! (b - 1)))"
proof -
  have "trimEvents tz now cacheSize logTTL xs = ttl_crop tz now logTTL (take (nat cacheSize) xs)"
    unfolding trimEvents_eq Let_def capacity_crop [OF assms(1)] using assms(2) by simp
  with ttl_crop_take [of "take (nat cacheSize) xs" tz now logTTL] show ?thesis by simp
qed

lemma last_take_nth:
  assumes "0 < b" "b \<le> length zs"
  shows "last (take b zs) = zs ! (b - 1)"
proof -
  from assms have ne: "take b zs \<noteq> []" by auto
  have "last (take b zs) = take b zs ! (length (take b zs) - 1)"
    using ne by (rule last_conv_nth)
  also have "\<dots> = zs ! (b - 1)" using assms by (simp add: min_def)
  finally show ?thesis .
qed

lemma newest_first_prefix:
  "newest_first tz now xs \<Longrightarrow> newest_first tz now (take k xs)"
  unfolding newest_first_def by (rule sorted_wrt_take)

lemma newest_first_take:
  assumes nf: "newest_first tz now xs" and b: "0 < b" "b \<le> length xs"
    and l: "\<not> expired tz now logTTL (xs ! (b - 1))"
  shows "\<forall>e \<in> set (take b xs). \<not> expired tz now logTTL e"
proof
  fix e assume "e \<in> set (take b xs)"
  then obtain i where i: "i < b" "e = xs ! i"
    using b by (auto simp: in_set_conv_nth)
  have "daysSince tz now (Some (timestamp (xs ! (b - 1)))) \<le> daysSince tz now (Some (timestamp (xs ! i)))"
  proof (cases "i = b - 1")
    case True
    then show ?thesis by simp
  next
    case False
    with i have "i < b - 1" "b - 1 < length xs" using b by simp_all
    with nf show ?thesis unfolding newest_first_def by (simp add: sorted_wrt_iff_nth_less)
  qed
  with l i show "\<not> expired tz now logTTL e" by (simp add: expired_def)
qed

text \<open>
  Claim C3, as amended. \<open>trimEvents\<close> is what runs on the message log after every
  append (\<^verbatim>\<open>registerEvent\<close>) and every repopulation (\<^verbatim>\<open>reprepopulateEvents\<close>). With the
  capacity that \<open>conf_handler\<close> returns for \<^verbatim>\<open>cache.logPanel.size\<close> (at least 1000), the
  log it leaves holds at most that many entries. Ages are counted in local calendar
  days: an entry is expired when its day lies more than \<open>logTTL\<close> days before the
  current day. When the TTL is positive, the log left is the log cropped to the capacity
  and cut at a breakpoint \<open>b\<close>: every entry from \<open>b\<close> on is expired and the entry before
  \<open>b\<close>, if there is one, is not. So the log left is empty or its last entry is not
  expired, and if the log was ordered newest first by day, no entry left is expired. A
  TTL of 0 or less leaves the first \<open>cacheSize\<close> entries: no entry is dropped for its
  age.
\<close>

theorem trimEvents_bounds:
  assumes "conf_handler ''cache.logPanel.size'' v = Some cacheSize"
  shows "1000 \<le> cacheSize
     \<and> int (length (trimEvents tz now cacheSize logTTL xs)) \<le> cacheSize
     \<and> (0 < logTTL \<longrightarrow>
          (\<exists>b \<le> length (take (nat cacheSize) xs).
               trimEvents tz now cacheSize logTTL xs = take b (take (nat cacheSize) xs)
             \<and> (\<forall>i. b \<le> i \<and> i < length (take (nat cacheSize) xs) \<longrightarrow>
                    expired tz now logTTL (take (nat cacheSize) xs ! i))
             \<and> (b = 0 \<or> \<not> expired tz now logTTL (take (nat cacheSize) xs ! (b - 1))))
        \<and> (trimEvents tz now cacheSize logTTL xs = []
           \<or> \<not> expired tz now logTTL (last (trimEvents tz now cacheSize logTTL xs)))
        \<and> (newest_first tz now xs \<longrightarrow>
             (\<forall>e \<in> set (trimEvents tz now cacheSize logTTL xs). \<not> expired tz now logTTL e)))
     \<and> (logTTL \<le> 0 \<longrightarrow> trimEvents tz now cacheSize logTTL xs = take (nat cacheSize) xs)"
proof -
  from assms have c: "cacheSize = max 1000 v" by (simp add: conf_handler_def)
  then have c0: "0 \<le> cacheSize" "1000 \<le> cacheSize" by simp_all
  let ?ys = "take (nat cacheSize) xs"
  let ?r = "trimEvents tz now cacheSize logTTL xs"
  have len: "int (length ?ys) \<le> cacheSize" using c0(1) by (simp add: le_nat_iff)
  have 4: "?r = ?ys" if "logTTL \<le> 0"
    using trimEvents_no_ttl [OF c0(1) that] .
  have cut: "\<exists>b \<le> length ?ys. ?r = take b ?ys
     \<and> (\<forall>i. b \<le> i \<and> i < length ?ys \<longrightarrow> expired tz now logTTL (?ys ! i))
     \<and> (b = 0 \<or> \<not> expired tz now logTTL (?ys ! (b - 1)))" if "0 < logTTL"
    using trimEvents_ttl [OF c0(1) that] .
  have 1: "int (length ?r) \<le> cacheSize"
  proof (cases "0 < logTTL")
    case True
    from cut [OF True] obtain b where "b \<le> length ?ys" "?r = take b ?ys" by blast
    then have "length ?r \<le> length ?ys" by simp
    with len show ?thesis by linarith
  next
    case False
    with 4 len show ?thesis by simp
  qed
  have 2: "?r = [] \<or> \<not> expired tz now logTTL (last ?r)" if t: "0 < logTTL"
  proof -
    from cut [OF t] obtain b where b: "b \<le> length ?ys" "?r = take b ?ys"
      "b = 0 \<or> \<not> expired tz now logTTL (?ys ! (b - 1))" by blast
    show ?thesis
    proof (cases "b = 0")
      case True
      with b(2) show ?thesis by simp
    next
      case False
      then have "last (take b ?ys) = ?ys ! (b - 1)"
        using b(1) by (intro last_take_nth) simp_all
      with False b(2,3) show ?thesis by simp
    qed
  qed
  have 3: "\<forall>e \<in> set ?r. \<not> expired tz now logTTL e"
    if t: "0 < logTTL" and nf: "newest_first tz now xs"
  proof -
    from cut [OF t] obtain b where b: "b \<le> length ?ys" "?r = take b ?ys"
      "b = 0 \<or> \<not> expired tz now logTTL (?ys ! (b - 1))" by blast
    show ?thesis
    proof (cases "b = 0")
      case True
      with b(2) show ?thesis by simp
    next
      case False
      with newest_first_take [OF newest_first_prefix [OF nf] _ b(1), of logTTL] b(2,3)
      show ?thesis by simp
    qed
  qed
  from c0(2) 1 2 3 4 cut show ?thesis by blast
qed

theorem trimEvents_bounds_witness:
  "conf_handler ''cache.logPanel.size'' 5 = Some 1000
   \<and> (0::int) < 7 \<and> newest_first 0 864005 [e_new, e_old]
   \<and> int (length (trimEvents 0 864005 1000 7 [e_new, e_old])) \<le> 1000
   \<and> trimEvents 0 864005 1000 7 [e_new, e_old] = [e_new]
   \<and> expired 0 864005 7 e_old
   \<and> \<not> expired 0 864005 7 e_new
   \<and> trimEvents 0 864005 1000 0 [e_new, e_old] = take (nat 1000) [e_new, e_old]"
proof -
  have h: "conf_handler ''cache.logPanel.size'' 5 = Some 1000"
    by (simp add: conf_handler_def)
  have nf: "newest_first 0 864005 [e_new, e_old]"
    by (simp add: newest_first_def e_old_def e_new_def newLogEntry_def)
  have m: "trimEvents 0 864005 1000 7 [e_new, e_old] = [e_new]"
    by (simp add: trimEvents_def e_old_def e_new_def newLogEntry_def py_int_def del_from_def)
  have e: "expired 0 864005 7 e_old"
    by (simp add: expired_def e_old_def newLogEntry_def py_int_def)
  from trimEvents_bounds [OF h, of 0 864005 7 "[e_new, e_old]"]
    trimEvents_bounds [OF h, of 0 864005 0 "[e_new, e_old]"] h nf m e
  show ?thesis by simp
qed

text \<open>
  Claim C3 as stated fails where an older entry stands before a newer one: the scan
  starts at the end of the list and stops at \<open>e_new\<close>, which is within the TTL of 7
  days, so \<open>e_old\<close>, ten calendar days old, stays in the log.
\<close>

theorem trimEvents_keeps_expired:
  "trimEvents 0 864005 1000 7 [e_old, e_new] = [e_old, e_new] \<and> expired 0 864005 7 e_old"
  by (simp add: trimEvents_def e_old_def e_new_def newLogEntry_def expired_def py_int_def
      del_from_def)

subsection \<open>Day dividers\<close>

text \<open>The definitions of the examples, for evaluation.\<close>

lemmas ex_defs = st_two_def st_marked_def init_state_def e_old_def e_new_def newLogEntry_def
  DAYBREAK_EVENT_def


lemma dividers_added_cong:
  "\<forall>x \<in> set out. type (os' x) = type (os x) \<Longrightarrow>
   dividers_added os' es out = dividers_added os es out"
  by (induction os es out rule: dividers_added.induct) auto



lemma dividers_added_refl: "dividers_added os es es"
  by (induction es) auto

lemma dividers_added_marker:
  "type (os x) = DAYBREAK_EVENT \<Longrightarrow> dividers_added os es out \<Longrightarrow> dividers_added os es (x # out)"
  by (cases es) auto

lemma dividers_added_Cons:
  "dividers_added os es out \<Longrightarrow> dividers_added os (e # es) (e # out)"
  by simp

lemma daybreaks_loop_spec:
  assumes "\<forall>e \<in> set es. e < n"
  shows "\<exists>ys os' n'. daybreaks_loop tz now es acc d (os, n) = (acc @ ys, os', n')
       \<and> n \<le> n' \<and> (\<forall>x < n. os' x = os x) \<and> (\<forall>x \<in> set ys. x < n')
       \<and> dividers_added os' es ys"
  using assms
proof (induction es arbitrary: acc d os n)
  case Nil
  then show ?case by simp
next
  case (Cons e es)
  let ?day = "daysSince tz now (Some (timestamp (os e)))"
  show ?case
  proof (cases "?day = d")
    case True
    from Cons.prems have "\<forall>e \<in> set es. e < n" by simp
    from Cons.IH [OF this, of "acc @ [e]" ?day os] obtain ys os' n' where
      h: "daybreaks_loop tz now es (acc @ [e]) ?day (os, n) = ((acc @ [e]) @ ys, os', n')"
         "n \<le> n'" "\<forall>x < n. os' x = os x" "\<forall>x \<in> set ys. x < n'" "dividers_added os' es ys"
      by blast
    have 1: "daybreaks_loop tz now (e # es) acc d (os, n) = (acc @ (e # ys), os', n')"
      using True h(1) by simp
    have 2: "\<forall>x \<in> set (e # ys). x < n'" using h(2,4) Cons.prems by auto
    have 3: "dividers_added os' (e # es) (e # ys)" using h(5) by simp
    from 1 2 3 h(2,3) show ?thesis by blast
  next
    case False
    let ?m = "newLogEntry (PyInt (?day * 86400 + tz)) DAYBREAK_EVENT [] ''white''"
    from Cons.prems have "\<forall>e \<in> set es. e < Suc n" by auto
    from Cons.IH [OF this, of "acc @ [n, e]" ?day "os(n := ?m)"] obtain ys os' n' where
      h: "daybreaks_loop tz now es (acc @ [n, e]) ?day (os(n := ?m), Suc n) = ((acc @ [n, e]) @ ys, os', n')"
         "Suc n \<le> n'" "\<forall>x < Suc n. os' x = (os(n := ?m)) x" "\<forall>x \<in> set ys. x < n'"
         "dividers_added os' es ys"
      by blast
    have 1: "daybreaks_loop tz now (e # es) acc d (os, n) = (acc @ (n # e # ys), os', n')"
      using False h(1) by (simp add: Let_def)
    have 2: "\<forall>x \<in> set (n # e # ys). x < n'" using h(2,4) Cons.prems by auto
    have "type (os' n) = DAYBREAK_EVENT" using h(3) by (simp add: newLogEntry_def)
    moreover have "dividers_added os' (e # es) (e # ys)" using h(5) by simp
    ultimately have 3: "dividers_added os' (e # es) (n # e # ys)"
      by (rule dividers_added_marker)
    have 4: "\<forall>x < n. os' x = os x" using h(3) by auto
    have 5: "n \<le> n'" using h(2) by simp
    from 1 2 3 4 5 show ?thesis by blast
  qed
qed

lemma getDaybreaks_empty:
  assumes "heap s events = []"
  shows "getDaybreaks tz now events ign s =
     Inr (next_addr s, s\<lparr>heap := (heap s)(next_addr s := []), next_addr := Suc (next_addr s)\<rparr>)"
  using assms by (simp add: getDaybreaks_def new_list_def)

lemma getDaybreaks_hit:
  assumes "CACHED_DAYBREAKS_ARGUMENTS s = (Some c, d)" "CACHED_DAYBREAKS_RESULT s = Some r'"
    and "c < next_addr s" "events < next_addr s"
    and "heap s events = heap s c" "heap s events \<noteq> []"
    and "ign \<or> d = Some (daysSince tz now None)"
  shows "getDaybreaks tz now events ign s =
     Inr (Suc (next_addr s),
          s\<lparr>heap := (heap s)(next_addr s := [], Suc (next_addr s) := (if r' = next_addr s then [] else heap s r')),
            next_addr := Suc (Suc (next_addr s))\<rparr>)"
  using assms by (auto simp: getDaybreaks_def new_list_def Let_def)


lemma getDaybreaks_miss:
  assumes "heap s events \<noteq> []" "events < next_addr s"
    and "case fst (CACHED_DAYBREAKS_ARGUMENTS s) of None \<Rightarrow> True | Some c \<Rightarrow> c < next_addr s"
    and "\<not> daybreaks_hit tz now events ign s"
    and "daybreaks_loop tz now (heap s events) [] (daysSince tz now None) (objs s, next_oid s) = (xs, os, n)"
  shows "getDaybreaks tz now events ign s =
     Inr (next_addr s,
          s\<lparr>objs := os, next_oid := n,
            heap := (heap s)(next_addr s := xs, Suc (next_addr s) := heap s events,
                             Suc (Suc (next_addr s)) := xs),
            next_addr := Suc (Suc (Suc (next_addr s))),
            CACHED_DAYBREAKS_ARGUMENTS := (Some (Suc (next_addr s)), Some (daysSince tz now None)),
            CACHED_DAYBREAKS_RESULT := Some (Suc (Suc (next_addr s)))\<rparr>)"
  using assms
  by (auto simp: getDaybreaks_def new_list_def Let_def daybreaks_hit_def split: option.splits)

lemma getDaybreaks_summary:
  assumes ok: "daybreaks_cache_ok s" and ev: "events < next_addr s"
    and al: "\<forall>e \<in> set (heap s events). e < next_oid s"
  shows "\<exists>r s'. getDaybreaks tz now events ign s = Inr (r, s')
     \<and> next_addr s \<le> r \<and> r < next_addr s' \<and> next_addr s \<le> next_addr s'
     \<and> (\<forall>a < next_addr s. heap s' a = heap s a)
     \<and> (\<forall>x < next_oid s. objs s' x = objs s x) \<and> next_oid s \<le> next_oid s'
     \<and> dividers_added (objs s') (heap s events) (heap s' r)
     \<and> daybreaks_cache_ok s'
     \<and> (heap s events = [] \<longrightarrow> heap s' r = [])
     \<and> (heap s events \<noteq> [] \<longrightarrow>
          (\<exists>c r' d. CACHED_DAYBREAKS_ARGUMENTS s' = (Some c, d) \<and> CACHED_DAYBREAKS_RESULT s' = Some r'
             \<and> c < next_addr s' \<and> r' < next_addr s' \<and> c \<noteq> r \<and> r' \<noteq> r
             \<and> heap s' c = heap s events \<and> heap s' r' = heap s' r
             \<and> (ign \<or> d = Some (daysSince tz now None))))"
proof (cases "heap s events = []")
  case True
  let ?s' = "s\<lparr>heap := (heap s)(next_addr s := []), next_addr := Suc (next_addr s)\<rparr>"
  have "daybreaks_cache_ok ?s'"
    using ok by (auto simp: daybreaks_cache_ok_def split: option.splits)
  with True getDaybreaks_empty [OF True, of tz now ign] show ?thesis
    by (intro exI [of _ "next_addr s"] exI [of _ ?s']) simp
next
  case False
  show ?thesis
  proof (cases "daybreaks_hit tz now events ign s")
    case True
    then obtain c where c: "fst (CACHED_DAYBREAKS_ARGUMENTS s) = Some c" "heap s c = heap s events"
      and d: "ign \<or> snd (CACHED_DAYBREAKS_ARGUMENTS s) = Some (daysSince tz now None)"
      by (auto simp: daybreaks_hit_def split: option.splits)
    from ok c(1) obtain r' where r': "CACHED_DAYBREAKS_RESULT s = Some r'" "c < next_addr s"
      "r' < next_addr s" "dividers_added (objs s) (heap s c) (heap s r')"
      by (auto simp: daybreaks_cache_ok_def split: option.splits)
    have args: "CACHED_DAYBREAKS_ARGUMENTS s = (Some c, snd (CACHED_DAYBREAKS_ARGUMENTS s))"
      using c(1) by (simp add: prod_eq_iff)
    let ?s' = "s\<lparr>heap := (heap s)(next_addr s := [], Suc (next_addr s) := (if r' = next_addr s then [] else heap s r')),
            next_addr := Suc (Suc (next_addr s))\<rparr>"
    have g: "getDaybreaks tz now events ign s = Inr (Suc (next_addr s), ?s')"
      using getDaybreaks_hit [OF args r'(1,2) ev c(2) [symmetric] False d] .
    have ok': "daybreaks_cache_ok ?s'"
      using c(1) r' by (simp add: daybreaks_cache_ok_def)
    have h: "heap ?s' (Suc (next_addr s)) = heap s r'" using r'(3) by simp
    have cache: "\<exists>c r'' d. CACHED_DAYBREAKS_ARGUMENTS ?s' = (Some c, d) \<and> CACHED_DAYBREAKS_RESULT ?s' = Some r''
             \<and> c < next_addr ?s' \<and> r'' < next_addr ?s' \<and> c \<noteq> Suc (next_addr s) \<and> r'' \<noteq> Suc (next_addr s)
             \<and> heap ?s' c = heap s events \<and> heap ?s' r'' = heap ?s' (Suc (next_addr s))
             \<and> (ign \<or> d = Some (daysSince tz now None))"
      using args r' c(2) d
      by (intro exI [of _ c] exI [of _ r'] exI [of _ "snd (CACHED_DAYBREAKS_ARGUMENTS s)"]) auto
    have da: "dividers_added (objs ?s') (heap s events) (heap ?s' (Suc (next_addr s)))"
      using r'(4) c(2) h by simp
    from g ok' cache da False show ?thesis
      by (intro exI [of _ "Suc (next_addr s)"] exI [of _ ?s']) simp
  next
    case miss: False
    from daybreaks_loop_spec [OF al, of tz now "[]" "daysSince tz now None" "objs s"]
    obtain ys os' n' where
      l: "daybreaks_loop tz now (heap s events) [] (daysSince tz now None) (objs s, next_oid s) = (ys, os', n')"
         "next_oid s \<le> n'" "\<forall>x < next_oid s. os' x = objs s x" "dividers_added os' (heap s events) ys"
      by auto
    have pre: "case fst (CACHED_DAYBREAKS_ARGUMENTS s) of None \<Rightarrow> True | Some c \<Rightarrow> c < next_addr s"
      using ok by (auto simp: daybreaks_cache_ok_def split: option.splits)
    let ?na = "next_addr s"
    let ?s' = "s\<lparr>objs := os', next_oid := n',
            heap := (heap s)(?na := ys, Suc ?na := heap s events, Suc (Suc ?na) := ys),
            next_addr := Suc (Suc (Suc ?na)),
            CACHED_DAYBREAKS_ARGUMENTS := (Some (Suc ?na), Some (daysSince tz now None)),
            CACHED_DAYBREAKS_RESULT := Some (Suc (Suc ?na))\<rparr>"
    have g: "getDaybreaks tz now events ign s = Inr (?na, ?s')"
      using getDaybreaks_miss [OF False ev pre miss l(1)] .
    have ok': "daybreaks_cache_ok ?s'"
      using l(4) by (simp add: daybreaks_cache_ok_def)
    have da: "dividers_added (objs ?s') (heap s events) (heap ?s' ?na)"
      using l(4) by simp
    from g ok' da l(2,3) False show ?thesis
      by (intro exI [of _ ?na] exI [of _ ?s']) simp
  qed
qed

lemma getDaybreaks_cached_again:
  assumes ok: "daybreaks_cache_ok s" and ev: "events < next_addr s"
    and al: "\<forall>e \<in> set (heap s events). e < next_oid s"
    and g: "getDaybreaks tz now events ign s = Inr (r1, s1)"
    and b: "b < next_addr s1" "heap (mutate_list r1 ys s1) b = heap s events"
    and day: "daysSince tz now' None = daysSince tz now None"
  shows "\<exists>r2 s2. getDaybreaks tz now' b ign (mutate_list r1 ys s1) = Inr (r2, s2)
           \<and> heap s2 r2 = heap s1 r1 \<and> r2 \<noteq> r1 \<and> next_addr s1 \<le> r2
           \<and> objs s2 = objs s1 \<and> next_oid s2 = next_oid s1
           \<and> CACHED_DAYBREAKS_ARGUMENTS s2 = CACHED_DAYBREAKS_ARGUMENTS s1
           \<and> CACHED_DAYBREAKS_RESULT s2 = CACHED_DAYBREAKS_RESULT s1"
proof -
  let ?m = "mutate_list r1 ys s1"
  from getDaybreaks_summary [OF ok ev al, of tz now ign] g have
    s1: "r1 < next_addr s1" "heap s events = [] \<longrightarrow> heap s1 r1 = []"
      "heap s events \<noteq> [] \<longrightarrow>
          (\<exists>c r' d. CACHED_DAYBREAKS_ARGUMENTS s1 = (Some c, d) \<and> CACHED_DAYBREAKS_RESULT s1 = Some r'
             \<and> c < next_addr s1 \<and> r' < next_addr s1 \<and> c \<noteq> r1 \<and> r' \<noteq> r1
             \<and> heap s1 c = heap s events \<and> heap s1 r' = heap s1 r1
             \<and> (ign \<or> d = Some (daysSince tz now None)))"
    by auto
  have na: "next_addr ?m = next_addr s1" "objs ?m = objs s1" "next_oid ?m = next_oid s1"
    "CACHED_DAYBREAKS_ARGUMENTS ?m = CACHED_DAYBREAKS_ARGUMENTS s1"
    "CACHED_DAYBREAKS_RESULT ?m = CACHED_DAYBREAKS_RESULT s1"
    by (simp_all add: mutate_list_def)
  show ?thesis
  proof (cases "heap s events = []")
    case True
    with b(2) have "heap ?m b = []" by simp
    from getDaybreaks_empty [OF this, of tz now' ign] s1(1,2) True na show ?thesis by auto
  next
    case False
    with s1(3) obtain c r' d where
      c: "CACHED_DAYBREAKS_ARGUMENTS s1 = (Some c, d)" "CACHED_DAYBREAKS_RESULT s1 = Some r'"
         "c < next_addr s1" "r' < next_addr s1" "c \<noteq> r1" "r' \<noteq> r1"
         "heap s1 c = heap s events" "heap s1 r' = heap s1 r1"
         "ign \<or> d = Some (daysSince tz now None)" by blast
    have 1: "CACHED_DAYBREAKS_ARGUMENTS ?m = (Some c, d)" "CACHED_DAYBREAKS_RESULT ?m = Some r'"
      using c(1,2) by (simp_all add: mutate_list_def)
    have 2: "heap ?m c = heap s events" "heap ?m r' = heap s1 r1"
      using c(5,6,7,8) by (simp_all add: mutate_list_def)
    have 3: "c < next_addr ?m" "b < next_addr ?m" using c(3) b(1) na by simp_all
    have 4: "heap ?m b = heap ?m c" "heap ?m b \<noteq> []" using b(2) 2(1) False by simp_all
    have 5: "ign \<or> d = Some (daysSince tz now' None)" using c(9) day by simp
    from getDaybreaks_hit [OF 1 3 4 5] 2(2) c(4) s1(1) na show ?thesis by auto
  qed
qed



text \<open>
  Claim C4, as amended. After a call of \<open>getDaybreaks\<close> on a list \<open>events\<close>, a call on
  any list with the same content (\<open>events\<close> itself, left as it was, is one), with the
  same flag and on the same calendar day, is answered from the cache: it returns a
  new list with the content of the first result, allocates no entry and leaves the
  caches as they were. So \<open>getDaybreaks_twice\<close> returns what \<open>getDaybreaks\<close> returns when
  the first call added no divider, that is when its result has the content of its
  input.
\<close>

theorem getDaybreaks_again:
  assumes ok: "daybreaks_cache_ok s" and ev: "events < next_addr s"
    and al: "\<forall>e \<in> set (heap s events). e < next_oid s"
    and g: "getDaybreaks tz now events ign s = Inr (r1, s1)"
    and day: "daysSince tz now' None = daysSince tz now None"
  shows "(\<forall>b < next_addr s1. heap s1 b = heap s events \<longrightarrow>
            (\<exists>r2 s2. getDaybreaks tz now' b ign s1 = Inr (r2, s2)
               \<and> heap s2 r2 = heap s1 r1 \<and> r2 \<noteq> r1
               \<and> objs s2 = objs s1 \<and> next_oid s2 = next_oid s1
               \<and> CACHED_DAYBREAKS_ARGUMENTS s2 = CACHED_DAYBREAKS_ARGUMENTS s1
               \<and> CACHED_DAYBREAKS_RESULT s2 = CACHED_DAYBREAKS_RESULT s1))
     \<and> events < next_addr s1 \<and> heap s1 events = heap s events
     \<and> (heap s1 r1 = heap s events \<longrightarrow>
          returned (getDaybreaks_twice tz now events ign s)
            = returned (getDaybreaks tz now events ign s))"
proof -
  have m: "mutate_list r1 (heap s1 r1) s1 = s1" by (simp add: mutate_list_def)
  have A: "\<exists>r2 s2. getDaybreaks tz now' b ign s1 = Inr (r2, s2)
               \<and> heap s2 r2 = heap s1 r1 \<and> r2 \<noteq> r1
               \<and> objs s2 = objs s1 \<and> next_oid s2 = next_oid s1
               \<and> CACHED_DAYBREAKS_ARGUMENTS s2 = CACHED_DAYBREAKS_ARGUMENTS s1
               \<and> CACHED_DAYBREAKS_RESULT s2 = CACHED_DAYBREAKS_RESULT s1"
    if "b < next_addr s1" "heap s1 b = heap s events"
      and day': "daysSince tz now' None = daysSince tz now None" for b now'
    using getDaybreaks_cached_again [OF ok ev al g that(1) _ day', of "heap s1 r1"] that(2) m
    by auto
  from getDaybreaks_summary [OF ok ev al, of tz now ign] g have
    s1: "r1 < next_addr s1" "next_addr s \<le> next_addr s1" "\<forall>a < next_addr s. heap s1 a = heap s a"
    by auto
  have B: "events < next_addr s1" "heap s1 events = heap s events" using s1 ev by auto
  have C: "returned (getDaybreaks_twice tz now events ign s) = returned (getDaybreaks tz now events ign s)"
    if "heap s1 r1 = heap s events"
  proof -
    from A [OF s1(1) that refl] obtain r2 s2 where
      "getDaybreaks tz now r1 ign s1 = Inr (r2, s2)" "heap s2 r2 = heap s1 r1" by blast
    with g show ?thesis by (simp add: getDaybreaks_twice_def returned_def)
  qed
  from A [OF _ _ day] B C show ?thesis by blast
qed

theorem getDaybreaks_again_witness:
  "daybreaks_cache_ok st_two \<and> 0 < next_addr st_two \<and> heap st_two 0 = [1, 0]
   \<and> next_oid st_two = 2
   \<and> returned (getDaybreaks 0 864005 0 False st_two) = Some [1, 2, 0]
   \<and> returned (case getDaybreaks 0 864005 0 False st_two of
                   Inl e \<Rightarrow> Inl e | Inr (r, s1) \<Rightarrow> getDaybreaks 0 864006 0 False s1)
        = Some [1, 2, 0]"
proof -
  have 1: "daybreaks_cache_ok st_two" by (simp add: daybreaks_cache_ok_def ex_defs)
  have 2: "0 < next_addr st_two" by (simp add: ex_defs)
  have 3: "\<forall>e \<in> set (heap st_two 0). e < next_oid st_two" by (simp add: ex_defs)
  have 6: "heap st_two 0 = [1, 0]" "next_oid st_two = 2" by (simp_all add: ex_defs)
  have 7: "returned (getDaybreaks 0 864005 0 False st_two) = Some [1, 2, 0]"
    by (simp add: returned_def getDaybreaks_def new_list_def Let_def py_int_def ex_defs)
  then obtain r1 s1 where g: "getDaybreaks 0 864005 0 False st_two = Inr (r1, s1)"
    and h: "heap s1 r1 = [1, 2, 0]"
    by (auto simp: returned_def split: sum.splits)
  have day: "daysSince 0 864006 None = daysSince 0 864005 None" by (simp add: py_int_def)
  from getDaybreaks_again [OF 1 2 3 g day] obtain r2 s2 where
    "getDaybreaks 0 864006 0 False s1 = Inr (r2, s2)" "heap s2 r2 = heap s1 r1" by blast
  with g h have "returned (case getDaybreaks 0 864005 0 False st_two of
                   Inl e \<Rightarrow> Inl e | Inr (r, s1) \<Rightarrow> getDaybreaks 0 864006 0 False s1)
        = Some [1, 2, 0]" by (simp add: returned_def)
  with 1 2 6 7 show ?thesis by simp
qed

text \<open>
  Claim C4 as stated fails when the first call adds a divider. The log of \<open>st_two\<close> is
  \<^verbatim>\<open>[e_new, e_old]\<close>, of days 10 and 0, read on day 10: the first call puts the divider 2
  before \<open>e_old\<close>. Its result is not the cached argument, so the second call runs the
  loop again, and the divider 2, stamped with the start of day 0, is itself of another
  day than \<open>e_new\<close>: it gets the divider 3 of its own.
\<close>

theorem getDaybreaks_twice_differs:
  "returned (getDaybreaks 0 864005 0 False st_two) = Some [1, 2, 0]
   \<and> returned (getDaybreaks_twice 0 864005 0 False st_two) = Some [1, 3, 2, 0]"
  by (simp add: returned_def getDaybreaks_twice_def getDaybreaks_def new_list_def Let_def
      py_int_def ex_defs)


subsection \<open>Deduplication\<close>

lemmas dup_ex_defs = st_dups_def init_state_def newLogEntry_def DAYBREAK_EVENT_def clock_still_def
  clock_slow_def

lemma dup_scan_True:
  "dup_scan common event es i True acc = Inr r \<Longrightarrow>
   \<exists>js. r = Indices (acc @ js) \<and> sorted_wrt (<) js
      \<and> (\<forall>j \<in> set js. i \<le> j \<and> j < i + length es
            \<and> type (es ! (j - i)) = type event
            \<and> (\<forall>m \<le> j - i. type (es ! m) \<noteq> DAYBREAK_EVENT))"
proof (induction es arbitrary: i acc r)
  case Nil
  then show ?case by auto
next
  case (Cons f es)
  show ?case
  proof (cases "type f = DAYBREAK_EVENT")
    case True
    with Cons.prems show ?thesis by auto
  next
    case nd: False
    have step: "\<exists>js. r = Indices (acc' @ js) \<and> sorted_wrt (<) js
      \<and> (\<forall>j \<in> set js. i \<le> j \<and> j < i + length (f # es)
            \<and> type ((f # es) ! (j - i)) = type event
            \<and> (\<forall>m \<le> j - i. type ((f # es) ! m) \<noteq> DAYBREAK_EVENT))
      \<and> (\<forall>j \<in> set js. i < j)"
      if "dup_scan common event es (Suc i) True acc' = Inr r" for acc'
    proof -
      from Cons.IH [OF that] obtain js where js: "r = Indices (acc' @ js)" "sorted_wrt (<) js"
        "\<forall>j \<in> set js. Suc i \<le> j \<and> j < Suc i + length es
            \<and> type (es ! (j - Suc i)) = type event
            \<and> (\<forall>m \<le> j - Suc i. type (es ! m) \<noteq> DAYBREAK_EVENT)" by blast
      have "\<forall>j \<in> set js. i \<le> j \<and> j < i + length (f # es)
            \<and> type ((f # es) ! (j - i)) = type event
            \<and> (\<forall>m \<le> j - i. type ((f # es) ! m) \<noteq> DAYBREAK_EVENT) \<and> i < j"
      proof
        fix j assume j: "j \<in> set js"
        with js(3) have a: "Suc i \<le> j" "j < Suc i + length es" "type (es ! (j - Suc i)) = type event"
          "\<forall>m \<le> j - Suc i. type (es ! m) \<noteq> DAYBREAK_EVENT" by auto
        from a(1) have e: "j - i = Suc (j - Suc i)" by simp
        have "\<forall>m \<le> j - i. type ((f # es) ! m) \<noteq> DAYBREAK_EVENT"
        proof (intro allI impI)
          fix m assume "m \<le> j - i"
          then show "type ((f # es) ! m) \<noteq> DAYBREAK_EVENT"
            using nd a(4) e by (cases m) auto
        qed
        with a e show "i \<le> j \<and> j < i + length (f # es)
            \<and> type ((f # es) ! (j - i)) = type event
            \<and> (\<forall>m \<le> j - i. type ((f # es) ! m) \<noteq> DAYBREAK_EVENT) \<and> i < j" by simp
      qed
      with js(1,2) show ?thesis by blast
    qed
    show ?thesis
    proof (cases "type event = type f")
      case False
      with nd Cons.prems have "dup_scan common event es (Suc i) True acc = Inr r" by simp
      from step [OF this] show ?thesis by blast
    next
      case same: True
      show ?thesis
      proof (cases "entries_match common event f")
        case (Inl e)
        with nd same Cons.prems show ?thesis by simp
      next
        case (Inr b)
        show ?thesis
        proof (cases b)
          case False
          with Inr nd same Cons.prems have "dup_scan common event es (Suc i) True acc = Inr r" by simp
          from step [OF this] show ?thesis by blast
        next
          case True
          with Inr nd same Cons.prems have "dup_scan common event es (Suc i) True (acc @ [i]) = Inr r"
            by simp
          from step [OF this] obtain js where js: "r = Indices ((acc @ [i]) @ js)" "sorted_wrt (<) js"
            "\<forall>j \<in> set js. i \<le> j \<and> j < i + length (f # es)
              \<and> type ((f # es) ! (j - i)) = type event
              \<and> (\<forall>m \<le> j - i. type ((f # es) ! m) \<noteq> DAYBREAK_EVENT)"
            "\<forall>j \<in> set js. i < j" by blast
          have 1: "r = Indices (acc @ (i # js))" using js(1) by simp
          have 2: "sorted_wrt (<) (i # js)" using js(2,4) by simp
          have 3: "\<forall>j \<in> set (i # js). i \<le> j \<and> j < i + length (f # es)
              \<and> type ((f # es) ! (j - i)) = type event
              \<and> (\<forall>m \<le> j - i. type ((f # es) ! m) \<noteq> DAYBREAK_EVENT)"
            using js(3) nd same by simp
          from 1 2 3 show ?thesis by blast
        qed
      qed
    qed
  qed
qed

lemma isDuplicate_indices:
  assumes "isDuplicate common event es True = Inr r"
  shows "\<exists>js. r = Indices js \<and> sorted_wrt (<) js
      \<and> (\<forall>j \<in> set js. j < length es \<and> type (es ! j) = type event
            \<and> (\<forall>m \<le> j. type (es ! m) \<noteq> DAYBREAK_EVENT))"
  using dup_scan_True [of common event es 0 "[]" r] assms by (auto simp: isDuplicate_def)

lemma set_del_at: "set (del_at i xs) \<subseteq> set xs"
  unfolding del_at_def using set_take_subset [of i xs] set_drop_subset [of "Suc i" xs] by auto

lemma set_del_all: "set (del_all ds xs) \<subseteq> set xs"
  unfolding del_all_def
proof (induction ds arbitrary: xs)
  case Nil
  show ?case by simp
next
  case (Cons d ds)
  from Cons.IH [of "del_at d xs"] set_del_at [of d xs] show ?case by auto
qed

lemma sorted_wrt_del_at: "sorted_wrt P xs \<Longrightarrow> sorted_wrt P (del_at i xs)"
proof -
  assume a: "sorted_wrt P xs"
  have "sorted_wrt P (take i xs @ drop i xs)" using a by simp
  then have 1: "\<forall>x \<in> set (take i xs). \<forall>y \<in> set (drop i xs). P x y"
    by (simp only: sorted_wrt_append) blast
  have 2: "set (drop (Suc i) xs) \<subseteq> set (drop i xs)"
    by (rule set_drop_subset_set_drop) simp
  from a have "sorted_wrt P (take i xs)" "sorted_wrt P (drop (Suc i) xs)"
    by simp_all
  with 1 2 show ?thesis unfolding del_at_def by (auto simp: sorted_wrt_append)
qed

lemma sorted_wrt_del_all: "sorted_wrt P xs \<Longrightarrow> sorted_wrt P (del_all ds xs)"
  unfolding del_all_def
  by (induction ds arbitrary: xs) (auto intro: sorted_wrt_del_at)

lemma subseq_del_at: "subseq (del_at i xs) xs"
proof -
  have "drop (Suc i) xs = drop 1 (drop i xs)" by simp
  then have "suffix (drop (Suc i) xs) (drop i xs)" by (metis suffix_drop)
  then have "subseq (drop (Suc i) xs) (drop i xs)"
    by (intro sublist_imp_subseq suffix_imp_sublist)
  then have "subseq (take i xs @ drop (Suc i) xs) (take i xs @ drop i xs)"
    by (simp only: subseq_append')
  then show ?thesis by (simp add: del_at_def)
qed

lemma subseq_del_all: "subseq (del_all ds xs) xs"
  unfolding del_all_def
proof (induction ds arbitrary: xs)
  case Nil
  show ?case by simp
next
  case (Cons d ds)
  from Cons.IH [of "del_at d xs"] subseq_del_at [of d xs] show ?case
    by (auto intro: subseq_order.trans)
qed

lemma length_del_all_desc:
  "sorted_wrt (>) ds \<Longrightarrow> \<forall>d \<in> set ds. d < length xs \<Longrightarrow>
   length (del_all ds xs) = length xs - length ds"
  unfolding del_all_def
proof (induction ds arbitrary: xs)
  case Nil
  show ?case by simp
next
  case (Cons d ds)
  from Cons.prems have d: "d < length xs" and lt: "\<forall>d' \<in> set ds. d' < d" and s: "sorted_wrt (>) ds"
    by auto
  have l: "length (del_at d xs) = length xs - 1" using d by (simp add: del_at_def)
  from lt d l have "\<forall>d' \<in> set ds. d' < length (del_at d xs)" by auto
  from Cons.IH [OF s this] l show ?case by simp
qed

lemma keep_del_all_desc:
  "sorted_wrt (>) ds \<Longrightarrow> m < length xs \<Longrightarrow> m \<notin> set ds \<Longrightarrow> xs ! m \<in> set (del_all ds xs)"
  unfolding del_all_def
proof (induction ds arbitrary: xs m)
  case Nil
  then show ?case by simp
next
  case (Cons d ds)
  from Cons.prems have lt: "\<forall>d' \<in> set ds. d' < d" and s: "sorted_wrt (>) ds" and md: "m \<noteq> d"
    by auto
  show ?case
  proof (cases "m < d")
    case True
    then have 1: "del_at d xs ! m = xs ! m" "m < length (del_at d xs)"
      using Cons.prems(2) by (auto simp: del_at_def nth_append)
    from Cons.prems(3) have "m \<notin> set ds" by simp
    from Cons.IH [OF s 1(2) this] 1(1) show ?thesis by simp
  next
    case False
    with md have gt: "d < m" by simp
    then have 1: "del_at d xs ! (m - 1) = xs ! m" "m - 1 < length (del_at d xs)"
      using Cons.prems(2) by (auto simp: del_at_def nth_append min_def)
    have "m - 1 \<notin> set ds" using lt gt by auto
    from Cons.IH [OF s 1(2) this] 1(1) show ?thesis by simp
  qed
qed

lemma del_at_map: "del_at i (map f xs) = map f (del_at i xs)"
  by (simp add: del_at_def take_map drop_map)

lemma del_all_map: "del_all ds (map f xs) = map f (del_all ds xs)"
  unfolding del_all_def by (induction ds arbitrary: xs) (simp_all add: del_at_map)

lemma dedup_groups_ok:
  assumes "dedup_groups common os clock st k rem gs = Inr (Some out)"
    and "sorted_wrt (<) rem" and "\<forall>x \<in> set rem. x < n"
    and "\<forall>j < n. type (os j) = DAYBREAK_EVENT \<and> j \<notin> set rem \<longrightarrow> (\<forall>x \<in> set rem. j < x)"
    and "\<forall>g \<in> set gs. group_ok os n g"
  shows "\<forall>g \<in> set out. group_ok os n g"
  using assms
proof (induction common os clock st k rem gs rule: dedup_groups.induct)
  case (1 common os clock st k gs)
  then show ?case by simp
next
  case (2 common os clock st k p rest gs)
  from "2.prems"(1) obtain js where
    dup: "isDuplicate common (os p) (map os rest) True = Inr (Indices js)"
    and nt: "\<not> clock k - st > 100 / 1000"
    and rec: "dedup_groups common os clock st (Suc k) (del_all (rev js) rest)
                (gs @ [(p, map (\<lambda>i. rest ! i) js)]) = Inr (Some out)"
    by (auto split: sum.splits dup_result.splits if_splits)
  from isDuplicate_indices [OF dup] have
    js: "sorted_wrt (<) js"
        "\<forall>j \<in> set js. j < length rest \<and> type (os (rest ! j)) = type (os p)
            \<and> (\<forall>m \<le> j. type (os (rest ! m)) \<noteq> DAYBREAK_EVENT)"
    by auto
  from "2.prems"(2) have srt: "sorted_wrt (<) rest" and pl: "\<forall>x \<in> set rest. p < x" by auto
  have desc: "sorted_wrt (>) (rev js)" using js(1) by (simp add: sorted_wrt_rev)
  let ?rem = "del_all (rev js) rest"
  have sub: "set ?rem \<subseteq> set rest" by (rule set_del_all)
  have a1: "sorted_wrt (<) ?rem" using srt by (rule sorted_wrt_del_all)
  have a2: "\<forall>x \<in> set ?rem. x < n" using sub "2.prems"(3) by auto
  have a3: "\<forall>j < n. type (os j) = DAYBREAK_EVENT \<and> j \<notin> set ?rem \<longrightarrow> (\<forall>x \<in> set ?rem. j < x)"
  proof (intro allI impI ballI)
    fix j x assume j: "j < n" "type (os j) = DAYBREAK_EVENT \<and> j \<notin> set ?rem" and x: "x \<in> set ?rem"
    from x sub have xr: "x \<in> set rest" by auto
    show "j < x"
    proof (cases "j \<in> set (p # rest)")
      case False
      with "2.prems"(4) j xr show ?thesis by auto
    next
      case True
      show ?thesis
      proof (cases "j = p")
        case True
        with pl xr show ?thesis by simp
      next
        case False
        with True have "j \<in> set rest" by simp
        then obtain m where m: "m < length rest" "rest ! m = j" by (auto simp: in_set_conv_nth)
        have "m \<notin> set js" using js(2) m j by auto
        then have "m \<notin> set (rev js)" by simp
        from keep_del_all_desc [OF desc m(1) this] m(2) j show ?thesis by simp
      qed
    qed
  qed
  have g: "group_ok os n (p, map (\<lambda>i. rest ! i) js)"
    unfolding group_ok_def
  proof (intro ballI)
    fix q assume "q \<in> set (snd (p, map (\<lambda>i. rest ! i) js))"
    then obtain i where i: "i \<in> set js" "q = rest ! i" by auto
    with js(2) have ii: "i < length rest" "type (os q) = type (os p)"
      "\<forall>m \<le> i. type (os (rest ! m)) \<noteq> DAYBREAK_EVENT" by auto
    from ii(1) i(2) have qr: "q \<in> set rest" by simp
    have nodb: "type (os t) \<noteq> DAYBREAK_EVENT" if t: "p < t" "t \<le> q" for t
    proof
      assume db: "type (os t) = DAYBREAK_EVENT"
      from qr "2.prems"(3) t have tn: "t < n" by auto
      have "t \<in> set (p # rest)"
      proof (rule ccontr)
        assume "t \<notin> set (p # rest)"
        with "2.prems"(4) tn db have "t < p" by auto
        with t show False by simp
      qed
      with t have "t \<in> set rest" by auto
      then obtain m where m: "m < length rest" "rest ! m = t" by (auto simp: in_set_conv_nth)
      have "m \<le> i"
      proof (rule ccontr)
        assume "\<not> m \<le> i"
        then have "i < m" by simp
        with srt m(1) have "rest ! i < rest ! m" by (simp add: sorted_wrt_nth_less)
        with m(2) i(2) t show False by simp
      qed
      with ii(3) m(2) db show False by auto
    qed
    from qr pl "2.prems"(3) ii(2) nodb
    show "fst (p, map (\<lambda>i. rest ! i) js) < q \<and> q < n
        \<and> type (os q) = type (os (fst (p, map (\<lambda>i. rest ! i) js)))
        \<and> (\<forall>j. fst (p, map (\<lambda>i. rest ! i) js) < j \<and> j \<le> q \<longrightarrow> type (os j) \<noteq> DAYBREAK_EVENT)"
      by auto
  qed
  have a4: "\<forall>g \<in> set (gs @ [(p, map (\<lambda>i. rest ! i) js)]). group_ok os n g"
    using "2.prems"(5) g by auto
  from "2.IH" [OF dup _ nt rec a1 a2 a3 a4] show ?case by simp
qed

lemma dedup_loop_groups:
  assumes "os' = (\<lambda>p. os (f p))"
  shows "dedup_loop common os clock st k (map f ps) (map (count_pair f) gs) =
     (case dedup_groups common os' clock st k ps gs of
        Inl e \<Rightarrow> Inl e
      | Inr None \<Rightarrow> Inr None
      | Inr (Some out) \<Rightarrow> Inr (Some (map (count_pair f) out)))"
  using assms
proof (induction common os' clock st k ps gs rule: dedup_groups.induct)
  case (1 common os' clock st k gs)
  show ?case by simp
next
  case (2 common os' clock st k p rest gs)
  have m: "map os (map f rest) = map os' rest" using "2.prems" by simp
  have h: "os (f p) = os' p" using "2.prems" by simp
  have L: "dedup_loop common os clock st k (map f (p # rest)) (map (count_pair f) gs) =
     (case isDuplicate common (os' p) (map os' rest) True of
        Inl e \<Rightarrow> Inl e
      | Inr (Found b) \<Rightarrow> Inl AttributeError
      | Inr (Indices js) \<Rightarrow>
          if clock k - st > 100 / 1000 then Inr None
          else dedup_loop common os clock st (Suc k) (del_all (rev js) (map f rest))
                 (map (count_pair f) gs @ [(f p, length js)]))"
    by (simp only: list.map dedup_loop.simps m h)
  show ?case
  proof (cases "isDuplicate common (os' p) (map os' rest) True")
    case (Inl e)
    then show ?thesis unfolding L by simp
  next
    case (Inr r)
    show ?thesis
    proof (cases r)
      case (Found b)
      with Inr show ?thesis unfolding L by simp
    next
      case (Indices js)
      show ?thesis
      proof (cases "clock k - st > 100 / 1000")
        case True
        with Inr Indices show ?thesis unfolding L by simp
      next
        case False
        have e: "map (count_pair f) gs @ [(f p, length js)]
                 = map (count_pair f) (gs @ [(p, map (\<lambda>i. rest ! i) js)])"
          by (simp add: count_pair_def)
        have "dedup_loop common os clock st k (map f (p # rest)) (map (count_pair f) gs)
            = dedup_loop common os clock st (Suc k) (map f (del_all (rev js) rest))
                 (map (count_pair f) (gs @ [(p, map (\<lambda>i. rest ! i) js)]))"
          unfolding L using Inr Indices False by (simp add: del_all_map count_pair_def)
        also have "\<dots> = (case dedup_groups common os' clock st (Suc k) (del_all (rev js) rest)
                               (gs @ [(p, map (\<lambda>i. rest ! i) js)]) of
                          Inl e \<Rightarrow> Inl e
                        | Inr None \<Rightarrow> Inr None
                        | Inr (Some out) \<Rightarrow> Inr (Some (map (count_pair f) out)))"
          by (rule "2.IH" [OF Inr Indices False "2.prems"])
        also have "\<dots> = (case dedup_groups common os' clock st k (p # rest) gs of
                          Inl e \<Rightarrow> Inl e
                        | Inr None \<Rightarrow> Inr None
                        | Inr (Some out) \<Rightarrow> Inr (Some (map (count_pair f) out)))"
          using Inr Indices False by simp
        finally show ?thesis .
      qed
    qed
  qed
qed

lemma dedup_loop_counts:
  assumes "dedup_loop common os clock st k rem acc = Inr (Some out)"
  shows "length out + sum_list (map snd out) = length acc + sum_list (map snd acc) + length rem
     \<and> prefix acc out \<and> subseq (map fst out) (map fst acc @ rem)"
  using assms
proof (induction common os clock st k rem acc rule: dedup_loop.induct)
  case (1 common os clock st k acc)
  then show ?case by auto
next
  case (2 common os clock st k p rest acc)
  from "2.prems" obtain js where
    dup: "isDuplicate common (os p) (map os rest) True = Inr (Indices js)"
    and nt: "\<not> clock k - st > 100 / 1000"
    and rec: "dedup_loop common os clock st (Suc k) (del_all (rev js) rest)
                (acc @ [(p, length js)]) = Inr (Some out)"
    by (auto split: sum.splits dup_result.splits if_splits)
  from isDuplicate_indices [OF dup] have
    js: "sorted_wrt (<) js" "\<forall>j \<in> set js. j < length rest" by auto
  have desc: "sorted_wrt (>) (rev js)" using js(1) by (simp add: sorted_wrt_rev)
  have len: "length (del_all (rev js) rest) = length rest - length js"
    using length_del_all_desc [OF desc, of rest] js(2) by simp
  have le: "length js \<le> length rest"
    using len length_del_all_desc [OF desc, of rest] js
    by (metis distinct_card strict_sorted_iff card_mono finite_lessThan lessThan_iff subsetI card_lessThan)
  from "2.IH" [OF dup _ nt rec] have
    ih: "length out + sum_list (map snd out)
           = length (acc @ [(p, length js)]) + sum_list (map snd (acc @ [(p, length js)]))
             + length (del_all (rev js) rest)"
        "prefix (acc @ [(p, length js)]) out"
        "subseq (map fst out) (map fst (acc @ [(p, length js)]) @ del_all (rev js) rest)"
    by auto
  have 1: "length out + sum_list (map snd out) = length acc + sum_list (map snd acc) + length (p # rest)"
    using ih(1) len le by simp
  have 2: "prefix acc out" using ih(2) by (auto simp: prefix_def)
  have "subseq (map fst acc @ p # del_all (rev js) rest) (map fst acc @ p # rest)"
    by (simp add: subseq_append' subseq_del_all)
  with ih(3) have 3: "subseq (map fst out) (map fst acc @ p # rest)"
    by (auto intro: subseq_order.trans)
  from 1 2 3 show ?case by simp
qed

lemma common_match_error: "common_match msgs a b = Inl e \<Longrightarrow> e = IndexError \<and> [] \<in> set msgs"
  by (induction msgs) (auto split: list.splits if_splits simp: Let_def)

lemma entries_match_error:
  "entries_match (Some cm) ev f = Inl e \<Longrightarrow> e = IndexError \<and> \<not> patterns_ok cm"
  by (auto simp: entries_match_def patterns_ok_def split: if_splits option.splits
      dest: common_match_error)

lemma dup_scan_error:
  "dup_scan (Some cm) ev es i g acc = Inl e \<Longrightarrow> e = IndexError \<and> \<not> patterns_ok cm"
proof (induction es arbitrary: i acc)
  case Nil
  then show ?case by simp
next
  case (Cons f es)
  then show ?case
    by (auto split: if_splits sum.splits dest: entries_match_error)
qed

lemma dedup_loop_error:
  "dedup_loop (Some cm) os clock st k rem acc = Inl e \<Longrightarrow> e = IndexError \<and> \<not> patterns_ok cm"
proof (induction "Some cm" os clock st k rem acc rule: dedup_loop.induct)
  case (1 os clock st k acc)
  then show ?case by simp
next
  case (2 os clock st k p rest acc)
  show ?case
  proof (cases "isDuplicate (Some cm) (os p) (map os rest) True")
    case (Inl e')
    with "2.prems" have "e' = e" by simp
    with Inl dup_scan_error [of cm "os p" "map os rest" 0 True "[]" e] show ?thesis
      by (simp add: isDuplicate_def)
  next
    case (Inr r)
    from isDuplicate_indices [OF Inr] obtain js where r: "r = Indices js" by blast
    show ?thesis
    proof (cases "clock k - st > 100 / 1000")
      case True
      with Inr r "2.prems" show ?thesis by simp
    next
      case False
      with Inr r "2.prems" have
        "dedup_loop (Some cm) os clock st (Suc k) (del_all (rev js) rest) (acc @ [(p, length js)]) = Inl e"
        by simp
      from "2.hyps" [OF Inr r False this] show ?thesis .
    qed
  qed
qed

lemma getDuplicates_hit:
  assumes "CACHED_DUPLICATES_ARGUMENTS s = Some c" "heap s c = heap s events"
    and "CACHED_DUPLICATES_RESULT s = Some r"
  shows "getDuplicates armConf clock events s =
     Inr (Some (next_addr s),
          s\<lparr>pair_heap := (pair_heap s)(next_addr s := pair_heap s r),
            next_addr := Suc (next_addr s)\<rparr>)"
  using assms by (simp add: getDuplicates_def new_pair_list_def)

lemma getDuplicates_miss:
  assumes "\<not> dup_hit events s"
  shows "getDuplicates armConf clock events s =
     (case dedup_loop (Some (common_of armConf s)) (objs s) clock (clock 0) 1 (heap s events) [] of
        Inl e \<Rightarrow> Inl e
      | Inr None \<Rightarrow> Inr (None, load_common armConf s)
      | Inr (Some out) \<Rightarrow>
          Inr (Some (next_addr s),
               (load_common armConf s)\<lparr>
                 pair_heap := (pair_heap s)(next_addr s := out, Suc (Suc (next_addr s)) := out),
                 heap := (heap s)(Suc (next_addr s) := heap s events),
                 next_addr := Suc (Suc (Suc (next_addr s))),
                 CACHED_DUPLICATES_ARGUMENTS := Some (Suc (next_addr s)),
                 CACHED_DUPLICATES_RESULT := Some (Suc (Suc (next_addr s)))\<rparr>))"
  using assms
  by (auto simp: getDuplicates_def dup_hit_def load_common_def common_of_def new_list_def
      new_pair_list_def Let_def split: option.splits sum.splits)

lemma getDuplicates_summary:
  assumes ok: "dup_cache_ok s"
  shows "(\<exists>r s'. getDuplicates armConf clock events s = Inr (Some r, s')
            \<and> next_addr s \<le> r \<and> r < next_addr s'
            \<and> heap s' events = heap s events
            \<and> length (pair_heap s' r) + sum_list (map snd (pair_heap s' r)) = length (heap s events)
            \<and> subseq (map fst (pair_heap s' r)) (heap s events)
            \<and> dup_cache_ok s'
            \<and> (\<exists>c r'. CACHED_DUPLICATES_ARGUMENTS s' = Some c \<and> CACHED_DUPLICATES_RESULT s' = Some r'
                  \<and> r' < next_addr s' \<and> r' \<noteq> r \<and> heap s' c = heap s events
                  \<and> pair_heap s' r' = pair_heap s' r))
       \<or> (getDuplicates armConf clock events s = Inr (None, load_common armConf s)
            \<and> \<not> dup_hit events s)
       \<or> (getDuplicates armConf clock events s = Inl IndexError
            \<and> \<not> patterns_ok (common_of armConf s) \<and> \<not> dup_hit events s)"
proof (cases "dup_hit events s")
  case True
  then obtain c where c: "CACHED_DUPLICATES_ARGUMENTS s = Some c" "heap s c = heap s events"
    by (auto simp: dup_hit_def split: option.splits)
  with ok obtain r where r: "CACHED_DUPLICATES_RESULT s = Some r" "c < next_addr s" "r < next_addr s"
    "length (pair_heap s r) + sum_list (map snd (pair_heap s r)) = length (heap s c)"
    "subseq (map fst (pair_heap s r)) (heap s c)"
    by (auto simp: dup_cache_ok_def split: option.splits)
  let ?s' = "s\<lparr>pair_heap := (pair_heap s)(next_addr s := pair_heap s r),
            next_addr := Suc (next_addr s)\<rparr>"
  have g: "getDuplicates armConf clock events s = Inr (Some (next_addr s), ?s')"
    using getDuplicates_hit [OF c r(1)] .
  have ok': "dup_cache_ok ?s'" using c r by (simp add: dup_cache_ok_def)
  have "\<exists>c r'. CACHED_DUPLICATES_ARGUMENTS ?s' = Some c \<and> CACHED_DUPLICATES_RESULT ?s' = Some r'
                  \<and> r' < next_addr ?s' \<and> r' \<noteq> next_addr s \<and> heap ?s' c = heap s events
                  \<and> pair_heap ?s' r' = pair_heap ?s' (next_addr s)"
    using c r by (intro exI [of _ c] exI [of _ r]) simp
  with g ok' c r show ?thesis
    by (intro disjI1 exI [of _ "next_addr s"] exI [of _ ?s']) simp
next
  case False
  note miss = getDuplicates_miss [OF False, of armConf clock]
  show ?thesis
  proof (cases "dedup_loop (Some (common_of armConf s)) (objs s) clock (clock 0) 1 (heap s events) []")
    case (Inl e)
    with dedup_loop_error [OF Inl] miss False show ?thesis by simp
  next
    case (Inr res)
    show ?thesis
    proof (cases res)
      case None
      with Inr miss False show ?thesis by simp
    next
      case (Some out)
      from dedup_loop_counts [OF Inr [unfolded Some]] have
        cnt: "length out + sum_list (map snd out) = length (heap s events)"
             "subseq (map fst out) (heap s events)" by simp_all
      let ?na = "next_addr s"
      let ?s' = "(load_common armConf s)\<lparr>
                 pair_heap := (pair_heap s)(?na := out, Suc (Suc ?na) := out),
                 heap := (heap s)(Suc ?na := heap s events),
                 next_addr := Suc (Suc (Suc ?na)),
                 CACHED_DUPLICATES_ARGUMENTS := Some (Suc ?na),
                 CACHED_DUPLICATES_RESULT := Some (Suc (Suc ?na))\<rparr>"
      have g: "getDuplicates armConf clock events s = Inr (Some ?na, ?s')"
        using miss Inr Some by simp
      have ok': "dup_cache_ok ?s'" using cnt by (simp add: dup_cache_ok_def)
      have h: "heap ?s' events = heap s events"
        by (cases "events = Suc ?na") simp_all
      have "\<exists>c r'. CACHED_DUPLICATES_ARGUMENTS ?s' = Some c \<and> CACHED_DUPLICATES_RESULT ?s' = Some r'
                  \<and> r' < next_addr ?s' \<and> r' \<noteq> ?na \<and> heap ?s' c = heap s events
                  \<and> pair_heap ?s' r' = pair_heap ?s' ?na"
        by (intro exI [of _ "Suc ?na"] exI [of _ "Suc (Suc ?na)"]) simp
      with g ok' cnt h show ?thesis
        by (intro disjI1 exI [of _ ?na] exI [of _ ?s']) simp
    qed
  qed
qed

lemma getDuplicates_cached_again:
  assumes ok: "dup_cache_ok s"
    and g: "getDuplicates armConf clock events s = Inr (Some r1, s1)"
    and b: "heap s1 b = heap s events"
  shows "\<exists>r2 s2. getDuplicates armConf' clock' b (mutate_pair_list r1 ys s1) = Inr (Some r2, s2)
           \<and> pair_heap s2 r2 = pair_heap s1 r1 \<and> r2 \<noteq> r1 \<and> next_addr s1 \<le> r2
           \<and> CACHED_DUPLICATES_ARGUMENTS s2 = CACHED_DUPLICATES_ARGUMENTS s1
           \<and> CACHED_DUPLICATES_RESULT s2 = CACHED_DUPLICATES_RESULT s1"
proof -
  let ?m = "mutate_pair_list r1 ys s1"
  from getDuplicates_summary [OF ok, of armConf clock events] g obtain c r' where
    c: "r1 < next_addr s1" "CACHED_DUPLICATES_ARGUMENTS s1 = Some c"
       "CACHED_DUPLICATES_RESULT s1 = Some r'" "r' \<noteq> r1" "heap s1 c = heap s events"
       "pair_heap s1 r' = pair_heap s1 r1"
    by auto
  have 1: "CACHED_DUPLICATES_ARGUMENTS ?m = Some c" "CACHED_DUPLICATES_RESULT ?m = Some r'"
    "heap ?m c = heap ?m b" "pair_heap ?m r' = pair_heap s1 r1" "next_addr ?m = next_addr s1"
    using c b by (simp_all add: mutate_pair_list_def)
  from getDuplicates_hit [OF 1(1,3,2), of armConf' clock'] 1 c(1,2,3,4) show ?thesis by auto
qed

text \<open>
  Claim C8. The loop of \<open>getDuplicates\<close> on a list \<open>events\<close> returns the tuples of the
  groups that \<open>dedup_groups\<close> forms on the positions of \<open>events\<close>: the entry at the position
  \<open>p\<close> with the number of the positions \<open>ds\<close> dropped as its duplicates. Every position
  \<open>q\<close> counted as a duplicate of \<open>p\<close> stands after \<open>p\<close>, holds an entry of the category of
  the entry at \<open>p\<close>, and no entry after \<open>p\<close> up to \<open>q\<close> is of the category
  \<^verbatim>\<open>DAYBREAK_EVENT\<close>. So two entries with a day divider between them are never counted
  as duplicates of each other, nor are two entries of different categories.
\<close>

theorem dedup_keeps_within_day_and_category:
  "dedup_loop common os clock startTime k events [] =
     (case dedup_groups common (\<lambda>p. os (events ! p)) clock startTime k [0..<length events] [] of
        Inl e \<Rightarrow> Inl e
      | Inr None \<Rightarrow> Inr None
      | Inr (Some groups) \<Rightarrow> Inr (Some (map (count_pair (\<lambda>p. events ! p)) groups)))
   \<and> (\<forall>groups. dedup_groups common (\<lambda>p. os (events ! p)) clock startTime k [0..<length events] []
                  = Inr (Some groups) \<longrightarrow>
        (\<forall>(p, ds) \<in> set groups. \<forall>q \<in> set ds.
            p < q \<and> q < length events
          \<and> type (os (events ! q)) = type (os (events ! p))
          \<and> (\<forall>j. p < j \<and> j \<le> q \<longrightarrow> type (os (events ! j)) \<noteq> DAYBREAK_EVENT)))"
proof -
  have e: "map (\<lambda>p. events ! p) [0..<length events] = events" by (rule map_nth)
  from dedup_loop_groups [OF refl, where common = common and os = os and f = "\<lambda>p. events ! p"
      and clock = clock and st = startTime and k = k and ps = "[0..<length events]" and gs = "[]"]
  have 1: "dedup_loop common os clock startTime k events [] =
     (case dedup_groups common (\<lambda>p. os (events ! p)) clock startTime k [0..<length events] [] of
        Inl e \<Rightarrow> Inl e
      | Inr None \<Rightarrow> Inr None
      | Inr (Some groups) \<Rightarrow> Inr (Some (map (count_pair (\<lambda>p. events ! p)) groups)))"
    by (simp only: e list.map)
  have 2: "\<forall>(p, ds) \<in> set groups. \<forall>q \<in> set ds.
            p < q \<and> q < length events
          \<and> type (os (events ! q)) = type (os (events ! p))
          \<and> (\<forall>j. p < j \<and> j \<le> q \<longrightarrow> type (os (events ! j)) \<noteq> DAYBREAK_EVENT)"
    if g: "dedup_groups common (\<lambda>p. os (events ! p)) clock startTime k [0..<length events] []
                  = Inr (Some groups)" for groups
  proof -
    have "\<forall>g \<in> set groups. group_ok (\<lambda>p. os (events ! p)) (length events) g"
      by (rule dedup_groups_ok [OF g]) simp_all
    then show ?thesis by (auto simp: group_ok_def)
  qed
  from 1 2 show ?thesis by blast
qed

theorem dedup_keeps_within_day_and_category_witness:
  "dedup_groups (Some Map.empty) (\<lambda>p. objs st_dups ([0, 1, 2, 3, 4] ! p)) clock_still 0 1
      [0..<length [0, 1, 2, 3, 4 :: nat]] []
     = Inr (Some [(0, [2]), (1, []), (3, []), (4, [])])
   \<and> dedup_loop (Some Map.empty) (objs st_dups) clock_still 0 1 [0, 1, 2, 3, 4] []
     = Inr (Some [(0, 1), (1, 0), (3, 0), (4, 0)])
   \<and> type (objs st_dups 3) = DAYBREAK_EVENT"
proof -
  have u: "[0..<length [0, 1, 2, 3, 4 :: nat]] = [0, 1, 2, 3, 4]"
    by (simp add: upt_rec)
  have 1: "dedup_groups (Some Map.empty) (\<lambda>p. objs st_dups ([0, 1, 2, 3, 4] ! p)) clock_still 0 1
      [0..<length [0, 1, 2, 3, 4 :: nat]] []
     = Inr (Some [(0, [2]), (1, []), (3, []), (4, [])])"
    unfolding u
    by (simp add: isDuplicate_def entries_match_def del_all_def del_at_def dup_ex_defs)
  from dedup_keeps_within_day_and_category
    [of "Some Map.empty" "objs st_dups" clock_still 0 1 "[0, 1, 2, 3, 4]"] 1
  have "dedup_loop (Some Map.empty) (objs st_dups) clock_still 0 1 [0, 1, 2, 3, 4] []
     = Inr (Some [(0, 1), (1, 0), (3, 0), (4, 0)])"
    by (simp add: count_pair_def)
  with 1 show ?thesis by (simp add: dup_ex_defs)
qed




subsection \<open>The caches hold copies\<close>

lemma getDaybreaks_frame:
  assumes "r1 < next_addr s1" "b \<noteq> r1"
    and "\<forall>c. fst (CACHED_DAYBREAKS_ARGUMENTS s1) = Some c \<longrightarrow>
           c \<noteq> r1 \<and> CACHED_DAYBREAKS_RESULT s1 \<noteq> Some r1"
  shows "returned (getDaybreaks tz now' b ign' (mutate_list r1 ys s1))
       = returned (getDaybreaks tz now' b ign' s1)"
  using assms
  by (auto simp: getDaybreaks_def returned_def new_list_def mutate_list_def Let_def
      split: option.splits prod.splits)

lemma getDaybreaks_cache_apart:
  assumes ok: "daybreaks_cache_ok s" and ev: "events < next_addr s"
    and al: "\<forall>e \<in> set (heap s events). e < next_oid s"
    and g: "getDaybreaks tz now events ign s = Inr (r1, s1)"
  shows "r1 < next_addr s1 \<and> (\<forall>c. fst (CACHED_DAYBREAKS_ARGUMENTS s1) = Some c \<longrightarrow>
           c \<noteq> r1 \<and> CACHED_DAYBREAKS_RESULT s1 \<noteq> Some r1)"
proof (cases "heap s events = []")
  case True
  from getDaybreaks_empty [OF True, of tz now ign] g have
    e: "CACHED_DAYBREAKS_RESULT s1 = CACHED_DAYBREAKS_RESULT s" "r1 = next_addr s"
      "CACHED_DAYBREAKS_ARGUMENTS s1 = CACHED_DAYBREAKS_ARGUMENTS s" "next_addr s1 = Suc (next_addr s)"
    by auto
  with ok show ?thesis by (auto simp: daybreaks_cache_ok_def split: option.splits)
next
  case False
  with getDaybreaks_summary [OF ok ev al, of tz now ign] g show ?thesis by auto
qed

text \<open>
  Claim C10. \<open>getDaybreaks\<close>: after a call that returned the list \<open>r1\<close> for a non-empty
  input, the cached result is another list with the same content; and when the caller
  has changed \<open>r1\<close> to any \<open>ys\<close>, a call on a list with the content of the first input,
  with the same flag and on the same calendar day, returns a list that did not exist
  before, with the content \<open>r1\<close> had when it was returned. Whatever the flag and the
  time, a later call on any other list \<open>c\<close> returns the same content whether the caller
  changed \<open>r1\<close> or not. \<open>getDuplicates\<close>: after a call that returned the list \<open>p1\<close>, the
  cached result is another list with the same content; and when the caller has changed
  \<open>p1\<close> to any \<open>zs\<close> (\<^verbatim>\<open>draw\<close> pops its tuples), a call on a list with the content of the
  first input returns a list that did not exist before, with the content \<open>p1\<close> had when
  it was returned.
\<close>

theorem caches_hold_copies:
  "(daybreaks_cache_ok s \<and> events < next_addr s \<and> (\<forall>e \<in> set (heap s events). e < next_oid s)
      \<and> getDaybreaks tz now events ign s = Inr (r1, s1)
      \<and> b < next_addr s1 \<and> heap (mutate_list r1 ys s1) b = heap s events
      \<and> daysSince tz now' None = daysSince tz now None
     \<longrightarrow> (heap s events \<noteq> [] \<longrightarrow>
            (\<exists>c. CACHED_DAYBREAKS_RESULT s1 = Some c \<and> c \<noteq> r1 \<and> heap s1 c = heap s1 r1))
       \<and> (\<exists>r2 s2. getDaybreaks tz now' b ign (mutate_list r1 ys s1) = Inr (r2, s2)
            \<and> heap s2 r2 = heap s1 r1 \<and> r2 \<noteq> r1 \<and> next_addr s1 \<le> r2))
   \<and> (daybreaks_cache_ok s \<and> events < next_addr s \<and> (\<forall>e \<in> set (heap s events). e < next_oid s)
      \<and> getDaybreaks tz now events ign s = Inr (r1, s1) \<and> c \<noteq> r1
     \<longrightarrow> returned (getDaybreaks tz now'' c ign' (mutate_list r1 ys s1))
           = returned (getDaybreaks tz now'' c ign' s1))
   \<and> (dup_cache_ok t \<and> getDuplicates armConf clock events' t = Inr (Some p1, t1)
      \<and> heap t1 b' = heap t events'
     \<longrightarrow> (\<exists>c. CACHED_DUPLICATES_RESULT t1 = Some c \<and> c \<noteq> p1
              \<and> pair_heap t1 c = pair_heap t1 p1)
       \<and> (\<exists>p2 t2. getDuplicates armConf' clock' b' (mutate_pair_list p1 zs t1) = Inr (Some p2, t2)
            \<and> pair_heap t2 p2 = pair_heap t1 p1 \<and> p2 \<noteq> p1 \<and> next_addr t1 \<le> p2))"
proof -
  have A: "(heap s events \<noteq> [] \<longrightarrow>
            (\<exists>c. CACHED_DAYBREAKS_RESULT s1 = Some c \<and> c \<noteq> r1 \<and> heap s1 c = heap s1 r1))
       \<and> (\<exists>r2 s2. getDaybreaks tz now' b ign (mutate_list r1 ys s1) = Inr (r2, s2)
            \<and> heap s2 r2 = heap s1 r1 \<and> r2 \<noteq> r1 \<and> next_addr s1 \<le> r2)"
    if ok: "daybreaks_cache_ok s" and ev: "events < next_addr s"
      and al: "\<forall>e \<in> set (heap s events). e < next_oid s"
      and g: "getDaybreaks tz now events ign s = Inr (r1, s1)"
      and b: "b < next_addr s1" "heap (mutate_list r1 ys s1) b = heap s events"
      and day: "daysSince tz now' None = daysSince tz now None"
  proof -
    from getDaybreaks_cached_again [OF ok ev al g b day]
    have 1: "\<exists>r2 s2. getDaybreaks tz now' b ign (mutate_list r1 ys s1) = Inr (r2, s2)
            \<and> heap s2 r2 = heap s1 r1 \<and> r2 \<noteq> r1 \<and> next_addr s1 \<le> r2" by blast
    from getDaybreaks_summary [OF ok ev al, of tz now ign] g
    have 2: "heap s events \<noteq> [] \<longrightarrow>
            (\<exists>c. CACHED_DAYBREAKS_RESULT s1 = Some c \<and> c \<noteq> r1 \<and> heap s1 c = heap s1 r1)"
      by auto
    from 1 2 show ?thesis by blast
  qed
  have B: "(\<exists>c. CACHED_DUPLICATES_RESULT t1 = Some c \<and> c \<noteq> p1
              \<and> pair_heap t1 c = pair_heap t1 p1)
       \<and> (\<exists>p2 t2. getDuplicates armConf' clock' b' (mutate_pair_list p1 zs t1) = Inr (Some p2, t2)
            \<and> pair_heap t2 p2 = pair_heap t1 p1 \<and> p2 \<noteq> p1 \<and> next_addr t1 \<le> p2)"
    if ok: "dup_cache_ok t" and g: "getDuplicates armConf clock events' t = Inr (Some p1, t1)"
      and b: "heap t1 b' = heap t events'"
  proof -
    from getDuplicates_cached_again [OF ok g b, of armConf' clock' zs]
    have 1: "\<exists>p2 t2. getDuplicates armConf' clock' b' (mutate_pair_list p1 zs t1) = Inr (Some p2, t2)
            \<and> pair_heap t2 p2 = pair_heap t1 p1 \<and> p2 \<noteq> p1 \<and> next_addr t1 \<le> p2" by blast
    from getDuplicates_summary [OF ok, of armConf clock events'] g
    have 2: "\<exists>c. CACHED_DUPLICATES_RESULT t1 = Some c \<and> c \<noteq> p1 \<and> pair_heap t1 c = pair_heap t1 p1"
      by auto
    from 1 2 show ?thesis by blast
  qed
  have C: "returned (getDaybreaks tz now'' c ign' (mutate_list r1 ys s1))
           = returned (getDaybreaks tz now'' c ign' s1)"
    if ok: "daybreaks_cache_ok s" and ev: "events < next_addr s"
      and al: "\<forall>e \<in> set (heap s events). e < next_oid s"
      and g: "getDaybreaks tz now events ign s = Inr (r1, s1)" and c: "c \<noteq> r1"
  proof -
    from getDaybreaks_cache_apart [OF ok ev al g] have
      1: "r1 < next_addr s1" "\<forall>c. fst (CACHED_DAYBREAKS_ARGUMENTS s1) = Some c \<longrightarrow>
           c \<noteq> r1 \<and> CACHED_DAYBREAKS_RESULT s1 \<noteq> Some r1" by simp_all
    from getDaybreaks_frame [OF 1(1) c 1(2)] show ?thesis .
  qed
  from A B C show ?thesis by blast
qed

theorem caches_hold_copies_witness:
  "returned (getDaybreaks 0 864005 0 False st_two) = Some [1, 2, 0]
   \<and> returned (daybreaks_then_again 0 864005 0 False [] st_two) = Some [1, 2, 0]
   \<and> returned_pairs (getDuplicates [] clock_still 0 st_dups) = Some [(0, 1), (1, 0), (3, 0), (4, 0)]
   \<and> returned_pairs (duplicates_then_again [] clock_still 0 [] st_dups)
        = Some [(0, 1), (1, 0), (3, 0), (4, 0)]"
proof -
  have 1: "daybreaks_cache_ok st_two" by (simp add: daybreaks_cache_ok_def ex_defs)
  have 2: "0 < next_addr st_two" by (simp add: ex_defs)
  have 3: "\<forall>e \<in> set (heap st_two 0). e < next_oid st_two" by (simp add: ex_defs)
  have 4: "returned (getDaybreaks 0 864005 0 False st_two) = Some [1, 2, 0]"
    by (simp add: returned_def getDaybreaks_def new_list_def Let_def py_int_def ex_defs)
  then obtain r1 s1 where g: "getDaybreaks 0 864005 0 False st_two = Inr (r1, s1)"
    and h: "heap s1 r1 = [1, 2, 0]"
    by (auto simp: returned_def split: sum.splits)
  from getDaybreaks_summary [OF 1 2 3, of 0 864005 False] g have
    f: "next_addr st_two \<le> next_addr s1" "\<forall>a < next_addr st_two. heap s1 a = heap st_two a"
       "next_addr st_two \<le> r1" by auto
  have 5: "0 < next_addr s1" using f(1) 2 by simp
  have 6: "heap (mutate_list r1 [] s1) 0 = heap st_two 0"
    using f(2,3) 2 by (simp add: mutate_list_def)
  have 7: "dup_cache_ok st_dups" by (simp add: dup_cache_ok_def dup_ex_defs)
  have 8: "returned_pairs (getDuplicates [] clock_still 0 st_dups) = Some [(0, 1), (1, 0), (3, 0), (4, 0)]"
    by (simp add: returned_pairs_def getDuplicates_def new_list_def new_pair_list_def Let_def
        loadLogMessages_def isDuplicate_def entries_match_def del_all_def del_at_def dup_ex_defs)
  then obtain p1 t1 where g': "getDuplicates [] clock_still 0 st_dups = Inr (Some p1, t1)"
    and h': "pair_heap t1 p1 = [(0, 1), (1, 0), (3, 0), (4, 0)]"
    by (auto simp: returned_pairs_def split: sum.splits option.splits)
  from getDuplicates_summary [OF 7, of "[]" clock_still 0] g' have
    9: "heap t1 0 = heap st_dups 0" by auto
  note t = caches_hold_copies [where s = st_two and events = 0 and tz = 0 and now = 864005
      and ign = False and ?r1.0 = r1 and ?s1.0 = s1 and b = 0 and ys = "[]" and now' = 864005
      and t = st_dups and armConf = "[]" and clock = clock_still and events' = 0 and ?p1.0 = p1
      and ?t1.0 = t1 and b' = 0 and armConf' = "[]" and clock' = clock_still and zs = "[]"
      and c = 0 and now'' = 864005 and ign' = False]
  from t 1 2 3 g 5 6 have "\<exists>r2 s2. getDaybreaks 0 864005 0 False (mutate_list r1 [] s1) = Inr (r2, s2)
      \<and> heap s2 r2 = heap s1 r1" by simp blast
  then obtain r2 s2 where
    "getDaybreaks 0 864005 0 False (mutate_list r1 [] s1) = Inr (r2, s2)" "heap s2 r2 = heap s1 r1"
    by blast
  with g h have A: "returned (daybreaks_then_again 0 864005 0 False [] st_two) = Some [1, 2, 0]"
    by (simp add: daybreaks_then_again_def returned_def)
  from t 7 g' 9 have "\<exists>p2 t2. getDuplicates [] clock_still 0 (mutate_pair_list p1 [] t1) = Inr (Some p2, t2)
      \<and> pair_heap t2 p2 = pair_heap t1 p1" by simp blast
  then obtain p2 t2 where
    "getDuplicates [] clock_still 0 (mutate_pair_list p1 [] t1) = Inr (Some p2, t2)"
    "pair_heap t2 p2 = pair_heap t1 p1"
    by blast
  with g' h' have B: "returned_pairs (duplicates_then_again [] clock_still 0 [] st_dups)
        = Some [(0, 1), (1, 0), (3, 0), (4, 0)]"
    by (simp add: duplicates_then_again_def returned_pairs_def)
  from 4 8 A B show ?thesis by simp
qed

end
